theory Spec2Isabelle
  imports Complex_Main "HOL-Library.Sublist" "HOL-Library.Multiset" "HOL-Library.Log_Nat"
begin

section \<open>The deal-stage probability engine of scripts/analytics/pipeline-probs.js\<close>

text \<open>
  The theory embeds the four functions of the module that carry its logic:
  \<^verbatim>\<open>resolveStages\<close>, \<^verbatim>\<open>dealsCohort\<close>, \<^verbatim>\<open>computeProgression\<close> and \<^verbatim>\<open>computeStats\<close>.

  Conventions of the embedding.
  \<^item> Identifiers, labels and aliases are strings; text beyond ASCII is its UTF-8
    encoding, on which the substring test agrees with the one on the text.
    \<^verbatim>\<open>String.prototype.toLowerCase\<close> is a built-in of the language whose case table is
    no part of the repository: it is the parameter \<open>lower\<close> of the functions that call it.
  \<^item> A JavaScript object used as a dictionary is the map \<open>string \<rightharpoonup> 'v\<close> of its own
    properties; the enumeration order of its keys is not part of the value. The objects
    made by \<^verbatim>\<open>Object.create(null)\<close> (\<^verbatim>\<open>reached\<close>, \<^verbatim>\<open>wonAfter\<close>) have no other
    property. The objects written \<^verbatim>\<open>{}\<close> (the alias map, \<^verbatim>\<open>reachedCounts\<close>,
    \<^verbatim>\<open>progressedCounts\<close>, \<^verbatim>\<open>progression\<close>, \<^verbatim>\<open>stageLoss\<close>, \<^verbatim>\<open>completion\<close>) inherit the
    members of \<^verbatim>\<open>Object.prototype\<close>: reading a key that is no own property finds the
    inherited member when the key names one, and an assignment to the key
    \<^verbatim>\<open>__proto__\<close> creates no own property.
  \<^item> A value that may be \<^verbatim>\<open>undefined\<close> or \<^verbatim>\<open>null\<close> is an \<open>option\<close>; JavaScript
    truthiness of such a string (\<^verbatim>\<open>if (id)\<close>, \<^verbatim>\<open>a || b\<close>) is \<open>truthy\<close>: present and not
    the empty string.
  \<^item> Timestamps are the integers \<^verbatim>\<open>new Date(...).getTime()\<close> returns for a valid date.
  \<^item> Counters are natural numbers (the increments of a JavaScript number are exact below
    \<open>2^53\<close>); every other number is a binary64 value, a rational, and each arithmetic
    operation rounds its exact result to the nearest binary64 value, ties to even
    (\<open>fl\<close>), in the normal range: overflow and subnormal numbers are not modelled.
    NaN arises in one place, the division by an inherited member, and is a value of
    its own (\<open>jsnumber\<close>).
\<close>

subsection \<open>JavaScript values\<close>

definition truthy :: "string option \<Rightarrow> bool" where
  "truthy x = (case x of None \<Rightarrow> False | Some s \<Rightarrow> s \<noteq> [])"

definition OBJECT_PROTOTYPE_KEYS :: "string list" where
  \<comment> \<open>the names of the members of \<^verbatim>\<open>Object.prototype\<close>: functions, and the accessor
      \<^verbatim>\<open>__proto__\<close> that reads \<^verbatim>\<open>Object.prototype\<close> itself\<close>
  "OBJECT_PROTOTYPE_KEYS =
     [''constructor'', ''__defineGetter__'', ''__defineSetter__'', ''hasOwnProperty'',
      ''__lookupGetter__'', ''__lookupSetter__'', ''isPrototypeOf'', ''propertyIsEnumerable'',
      ''toString'', ''valueOf'', ''__proto__'', ''toLocaleString'']"

definition assign :: "string \<Rightarrow> 'v \<Rightarrow> (string \<rightharpoonup> 'v) \<Rightarrow> (string \<rightharpoonup> 'v)" where
  \<comment> \<open>\<^verbatim>\<open>obj[k] = v\<close> on an object written \<^verbatim>\<open>{}\<close>, \<open>v\<close> a number or a fresh record\<close>
  "assign k v m = (if k = ''__proto__'' then m else m(k \<mapsto> v))"

datatype jsread = Counted nat | Inherited

definition read_or_0 :: "(string \<rightharpoonup> nat) \<Rightarrow> string \<Rightarrow> jsread" where
  \<comment> \<open>\<^verbatim>\<open>obj[k] || 0\<close> on an object written \<^verbatim>\<open>{}\<close> whose own properties are numbers:
      an inherited member is truthy\<close>
  "read_or_0 m k =
     (case m k of Some n \<Rightarrow> Counted n
      | None \<Rightarrow> if k \<in> set OBJECT_PROTOTYPE_KEYS then Inherited else Counted 0)"

datatype jsnumber = Finite rat | NaN

definition str_includes :: "string \<Rightarrow> string \<Rightarrow> bool" where
  \<comment> \<open>\<^verbatim>\<open>hay.includes(needle)\<close>: \<open>needle\<close> occurs in \<open>hay\<close> as a contiguous substring\<close>
  "str_includes hay needle = sublist needle hay"

subsection \<open>Binary64 arithmetic\<close>

definition pow2 :: "int \<Rightarrow> rat" where
  "pow2 e = (if 0 \<le> e then 2 ^ nat e else 1 / 2 ^ nat (- e))"

definition round_half_even :: "rat \<Rightarrow> int" where
  "round_half_even y =
     (let f = \<lfloor>y\<rfloor>; d = y - of_int f
      in if d < 1 / 2 then f else if 1 / 2 < d then f + 1 else if even f then f else f + 1)"

definition fl_pos :: "rat \<Rightarrow> rat" where
  \<comment> \<open>for \<open>x > 0\<close>: \<open>ex\<close> is \<open>\<lfloor>log\<^sub>2 x\<rfloor>\<close>, the significand has 53 bits\<close>
  "fl_pos x =
     (let (p, q) = quotient_of x;
          k = bitlen p - bitlen q;
          ex = (if pow2 k \<le> x then k else k - 1);
          e = ex - 52
      in of_int (round_half_even (x / pow2 e)) * pow2 e)"

definition fl :: "rat \<Rightarrow> rat" where
  "fl x = (if x = 0 then 0 else if x < 0 then - fl_pos (- x) else fl_pos x)"

definition fadd :: "rat \<Rightarrow> rat \<Rightarrow> rat" where
  "fadd a b = fl (a + b)"

definition fsub :: "rat \<Rightarrow> rat \<Rightarrow> rat" where
  "fsub a b = fl (a - b)"

definition fmul :: "rat \<Rightarrow> rat \<Rightarrow> rat" where
  "fmul a b = fl (a * b)"

definition fdiv :: "rat \<Rightarrow> rat \<Rightarrow> rat" where
  \<comment> \<open>only called with a non-zero divisor: every division of the module is guarded\<close>
  "fdiv a b = fl (a / b)"

subsection \<open>resolveStages\<close>

record stage_def =
  st_id :: string
  st_label :: "string option"

record pipeline_def =
  p_id :: string
  p_stages :: "stage_def list option"

record norm_stage =
  ns_id :: string
  ns_label :: string

record resolved =
  r_stages :: "string list"
  r_wonStage :: "string option"

datatype error = NoPipeline | TypeError
  \<comment> \<open>\<open>NoPipeline\<close> is \<^verbatim>\<open>throw new Error('No deal pipeline found for stage resolution')\<close>;
      \<open>TypeError\<close> is the exception of \<^verbatim>\<open>for (const a of aliases)\<close> on a value that is
      not iterable\<close>

definition FRIENDLY_ORDER :: "string list" where
  "FRIENDLY_ORDER =
     [''inbox'', ''sequenced'', ''engaging'', ''responsive'', ''advising'', ''negotiation'',
      ''contact'', ''closedwon'']"

definition DEFAULT_ALIASES :: "string \<rightharpoonup> string list" where
  "DEFAULT_ALIASES =
     [''inbox'' \<mapsto> [''inbox'', ''sql'', ''appointmentscheduled''],
      ''sequenced'' \<mapsto> [''sequenced''],
      ''engaging'' \<mapsto> [''engaging'', ''presentationscheduled'', ''email opened'', ''clicked''],
      ''responsive'' \<mapsto> [''responsive'', ''replied'', ''decisionmakerboughtin''],
      ''advising'' \<mapsto> [''advising''],
      ''negotiation'' \<mapsto> [''negotiation'', ''contractsent''],
      ''contact'' \<mapsto> [''contact'', ''deposit'', ''quote accepted'', ''qualifiedtobuy''],
      ''closedwon'' \<mapsto> [''closedwon'', ''closed won'', ''won'']]"

definition find_pipe :: "pipeline_def list \<Rightarrow> string option \<Rightarrow> pipeline_def option" where
  \<comment> \<open>\<^verbatim>\<open>pipelineId ? pipelines.find(p => p.id === pipelineId) : pipelines[0]\<close>\<close>
  "find_pipe pipelines pipelineId =
     (if truthy pipelineId then find (\<lambda>p. Some (p_id p) = pipelineId) pipelines
      else (case pipelines of [] \<Rightarrow> None | p # _ \<Rightarrow> Some p))"

definition stageList :: "(string \<Rightarrow> string) \<Rightarrow> pipeline_def \<Rightarrow> norm_stage list" where
  "stageList lower pipe =
     map (\<lambda>s. \<lparr>ns_id = st_id s,
               ns_label = lower (case st_label s of None \<Rightarrow> [] | Some l \<Rightarrow> l)\<rparr>)
       (case p_stages pipe of None \<Rightarrow> [] | Some ss \<Rightarrow> ss)"

fun findIdByAliases :: "(string \<Rightarrow> string) \<Rightarrow> norm_stage list \<Rightarrow> string list \<Rightarrow> string option" where
  "findIdByAliases lower sl [] = None"
| "findIdByAliases lower sl (a # as) =
     (case find (\<lambda>s. str_includes (ns_label s) (lower a)) sl of
        Some hit \<Rightarrow> Some (ns_id hit)
      | None \<Rightarrow> findIdByAliases lower sl as)"

definition aliases_of :: "(string \<rightharpoonup> string list) \<Rightarrow> string \<Rightarrow> error + string list" where
  \<comment> \<open>\<^verbatim>\<open>aliasMap[key] || [key]\<close> on an alias map written \<^verbatim>\<open>{}\<close>, as \<^verbatim>\<open>DEFAULT_ALIASES\<close>
      is, and the start of the loop over the value: an inherited member is truthy and
      not iterable\<close>
  "aliases_of aliasMap key =
     (case aliasMap key of
        Some as \<Rightarrow> Inr as
      | None \<Rightarrow> if key \<in> set OBJECT_PROTOTYPE_KEYS then Inl TypeError else Inr [key])"

fun map_keys ::
  "(string \<Rightarrow> string) \<Rightarrow> norm_stage list \<Rightarrow> (string \<rightharpoonup> string list) \<Rightarrow> string list \<Rightarrow> string list
     \<Rightarrow> error + string list" where
  \<comment> \<open>the loop over \<^verbatim>\<open>friendlyOrder\<close>, \<open>mapped\<close> its accumulator\<close>
  "map_keys lower sl aliasMap mapped [] = Inr mapped"
| "map_keys lower sl aliasMap mapped (key # keys) =
     (case aliases_of aliasMap key of
        Inl e \<Rightarrow> Inl e
      | Inr aliases \<Rightarrow>
          map_keys lower sl aliasMap
            (case findIdByAliases lower sl aliases of
               None \<Rightarrow> mapped
             | Some i \<Rightarrow> if i \<noteq> [] then mapped @ [i] else mapped)
            keys)"

definition mapped_ids ::
  "(string \<Rightarrow> string) \<Rightarrow> norm_stage list \<Rightarrow> string list \<Rightarrow> (string \<rightharpoonup> string list)
     \<Rightarrow> error + string list" where
  "mapped_ids lower sl friendlyOrder aliasMap = map_keys lower sl aliasMap [] friendlyOrder"

definition closedWonId ::
  "(string \<Rightarrow> string) \<Rightarrow> norm_stage list \<Rightarrow> (string \<rightharpoonup> string list) \<Rightarrow> error + string option" where
  \<comment> \<open>\<^verbatim>\<open>findIdByAliases(aliasMap.closedwon || ['closedwon'])\<close>\<close>
  "closedWonId lower sl aliasMap =
     (case aliases_of aliasMap ''closedwon'' of
        Inl e \<Rightarrow> Inl e
      | Inr cwAliases \<Rightarrow> Inr (findIdByAliases lower sl cwAliases))"

definition last_opt :: "'a list \<Rightarrow> 'a option" where
  \<comment> \<open>\<^verbatim>\<open>xs[xs.length - 1]\<close>, undefined on the empty array\<close>
  "last_opt xs = (if xs = [] then None else Some (last xs))"

definition resolveStages ::
  "(string \<Rightarrow> string) \<Rightarrow> pipeline_def list \<Rightarrow> string option \<Rightarrow> string list
     \<Rightarrow> (string \<rightharpoonup> string list) \<Rightarrow> error + resolved" where
  "resolveStages lower pipelines pipelineId friendlyOrder aliasMap =
     (case find_pipe pipelines pipelineId of
        None \<Rightarrow> Inl NoPipeline
      | Some pipe \<Rightarrow>
          let sl = stageList lower pipe
          in (case mapped_ids lower sl friendlyOrder aliasMap of
                Inl e \<Rightarrow> Inl e
              | Inr mapped \<Rightarrow>
                  (case closedWonId lower sl aliasMap of
                     Inl e \<Rightarrow> Inl e
                   | Inr cw \<Rightarrow>
                       let stages0 = filter (\<lambda>s. Some s \<noteq> cw) mapped;
                           stages = (case cw of None \<Rightarrow> stages0
                                     | Some c \<Rightarrow> if c \<noteq> [] then stages0 @ [c] else stages0)
                       in Inr \<lparr>r_stages = stages,
                               r_wonStage = (if truthy cw then cw else last_opt stages)\<rparr>)))"

definition demo_pipeline :: pipeline_def where
  "demo_pipeline = \<lparr>p_id = ''default'', p_stages = Some
     [\<lparr>st_id = ''11'', st_label = Some ''Closed Won''\<rparr>,
      \<lparr>st_id = ''12'', st_label = Some ''SQL''\<rparr>,
      \<lparr>st_id = ''13'', st_label = Some ''Negotiation''\<rparr>]\<rparr>"

definition unmatched_pipeline :: pipeline_def where
  "unmatched_pipeline = \<lparr>p_id = ''p2'', p_stages = Some
     [\<lparr>st_id = ''21'', st_label = Some ''Lead''\<rparr>,
      \<lparr>st_id = ''22'', st_label = None\<rparr>]\<rparr>"

subsection \<open>Deals\<close>

record hist_entry =
  h_value :: string
  h_timestamp :: int

datatype jsval = JUndefined | JBool bool | JString string

record deal =
  d_amount :: "rat option"
  d_is_closed_won :: jsval
  d_pipeline :: "string option"
  d_createdate :: "int option"
  d_history :: "hist_entry list"

text \<open>
  \<open>d_amount\<close> is the decimal number written in \<^verbatim>\<open>properties.amount\<close>, \<open>None\<close> when the
  property is absent, blank or not a number; \<open>d_is_closed_won\<close> is
  \<^verbatim>\<open>properties.hs_is_closed_won\<close> as the source delivers it; \<open>d_createdate\<close> is
  \<^verbatim>\<open>new Date(properties.createdate).getTime()\<close>, \<open>None\<close> for an invalid date; \<open>d_history\<close> is
  \<^verbatim>\<open>propertiesWithHistory?.dealstage || []\<close>.
\<close>

subsection \<open>dealsCohort\<close>

record page =
  results :: "deal list"
  next_after :: "string option"

type_synonym store = "string option \<Rightarrow> page"

definition in_window :: "int \<Rightarrow> int \<Rightarrow> deal \<Rightarrow> bool" where
  \<comment> \<open>\<^verbatim>\<open>created >= start && created <= end\<close>; both comparisons are false on an invalid date\<close>
  "in_window start end d =
     (case d_createdate d of None \<Rightarrow> False | Some created \<Rightarrow> start \<le> created \<and> created \<le> end)"

definition yields :: "int \<Rightarrow> int \<Rightarrow> string option \<Rightarrow> deal \<Rightarrow> bool" where
  "yields start end pipeline d =
     (if in_window start end d then \<not> truthy pipeline \<or> d_pipeline d = pipeline else False)"

fun dealsCohort :: "nat \<Rightarrow> store \<Rightarrow> int \<Rightarrow> int \<Rightarrow> string option \<Rightarrow> string option \<Rightarrow> deal list option" where
  "dealsCohort 0 getPage start end pipeline after = None"
| "dealsCohort (Suc n) getPage start end pipeline after =
     (let resp = getPage after;
          ys = filter (yields start end pipeline) (results resp)
      in if \<not> truthy (next_after resp) then Some ys
         else map_option (\<lambda>rest. ys @ rest)
                (dealsCohort n getPage start end pipeline (next_after resp)))"

text \<open>
  The first argument of \<open>dealsCohort\<close> bounds the number of page requests: the loop of the
  source runs until a page comes without a cursor, and \<open>None\<close> is the run that has not
  ended within the bound. The list is what the generator yields, in order.
\<close>

fun walk_ends :: "nat \<Rightarrow> store \<Rightarrow> string option \<Rightarrow> bool" where
  "walk_ends 0 getPage after = False"
| "walk_ends (Suc n) getPage after =
     (\<not> truthy (next_after (getPage after)) \<or> walk_ends n getPage (next_after (getPage after)))"

fun upstream_pages :: "nat \<Rightarrow> store \<Rightarrow> string option \<Rightarrow> page list" where
  "upstream_pages 0 getPage after = []"
| "upstream_pages (Suc n) getPage after =
     getPage after #
       (if truthy (next_after (getPage after))
        then upstream_pages n getPage (next_after (getPage after)) else [])"

definition in_cohort_spec :: "int \<Rightarrow> int \<Rightarrow> string option \<Rightarrow> deal \<Rightarrow> bool" where
  \<comment> \<open>the specification's cohort: created within the closed interval, and of the pipeline
      when one is supplied\<close>
  "in_cohort_spec start end pipeline d =
     ((\<exists>c. d_createdate d = Some c \<and> c \<in> {start..end}) \<and>
      (truthy pipeline \<longrightarrow> d_pipeline d = pipeline))"

subsection \<open>computeProgression\<close>

definition get0 :: "(string \<rightharpoonup> nat) \<Rightarrow> string \<Rightarrow> nat" where
  \<comment> \<open>\<^verbatim>\<open>m[k] || 0\<close>\<close>
  "get0 m k = (case m k of None \<Rightarrow> 0 | Some n \<Rightarrow> n)"

definition bump :: "string \<Rightarrow> (string \<rightharpoonup> nat) \<Rightarrow> (string \<rightharpoonup> nat)" where
  \<comment> \<open>\<^verbatim>\<open>m[k] = (m[k] || 0) + 1\<close>\<close>
  "bump k m = m(k \<mapsto> get0 m k + 1)"

definition incr :: "string \<Rightarrow> (string \<rightharpoonup> nat) \<Rightarrow> (string \<rightharpoonup> nat)" where
  \<comment> \<open>\<^verbatim>\<open>reachedCounts[k]++\<close>. Line 113 has initialised every key of the stages list but
      \<^verbatim>\<open>__proto__\<close>; there the increment reads the inherited object, computes NaN and
      assigns it to \<^verbatim>\<open>__proto__\<close>, which changes nothing\<close>
  "incr k m = (case m k of None \<Rightarrow> m | Some n \<Rightarrow> m(k \<mapsto> n + 1))"

definition sorted_hist :: "deal \<Rightarrow> hist_entry list" where
  \<comment> \<open>\<^verbatim>\<open>.sort((a, b) => a.t - b.t)\<close>, a stable sort\<close>
  "sorted_hist d = sort_key h_timestamp (d_history d)"

definition first_ts :: "hist_entry list \<Rightarrow> string \<Rightarrow> int option" where
  \<comment> \<open>\<^verbatim>\<open>hist.find(h => h.v === s)?.t\<close>\<close>
  "first_ts hist s = map_option h_timestamp (find (\<lambda>h. h_value h = s) hist)"

definition progressed :: "hist_entry list \<Rightarrow> string \<Rightarrow> string \<Rightarrow> bool" where
  \<comment> \<open>\<^verbatim>\<open>tsS != null && tsS1 != null && tsS1 > tsS\<close>\<close>
  "progressed hist s s1 =
     (case first_ts hist s of None \<Rightarrow> False
      | Some tsS \<Rightarrow> (case first_ts hist s1 of None \<Rightarrow> False | Some tsS1 \<Rightarrow> tsS < tsS1))"

definition pkey :: "string \<Rightarrow> string \<Rightarrow> string" where
  \<comment> \<open>the key of an adjacent pair; it contains \<^verbatim>\<open>->\<close>, so it names no member of
      \<^verbatim>\<open>Object.prototype\<close> and reads and writes under it are those of an own property\<close>
  "pkey s s1 = s @ ''->'' @ s1"

definition adjacent_pairs :: "string list \<Rightarrow> (string \<times> string) list" where
  \<comment> \<open>\<^verbatim>\<open>for (let i = 0; i < stages.length - 1; i++)\<close> with \<^verbatim>\<open>s = stages[i], s1 = stages[i + 1]\<close>\<close>
  "adjacent_pairs stages = map (\<lambda>i. (stages ! i, stages ! (i + 1))) [0..<length stages - 1]"

record prog_state =
  progressedCounts :: "string \<rightharpoonup> nat"
  reachedCounts :: "string \<rightharpoonup> nat"

definition progression_deal :: "string list \<Rightarrow> deal \<Rightarrow> prog_state \<Rightarrow> prog_state" where
  \<comment> \<open>the body of the loop over the deals\<close>
  "progression_deal stages d st =
     (let hist = sorted_hist d;
          reachedSet = set (map h_value hist);
          rc = fold (\<lambda>s rc. if s \<in> reachedSet then incr s rc else rc) stages (reachedCounts st);
          pc = fold (\<lambda>(s, s1) pc. if progressed hist s s1 then bump (pkey s s1) pc else pc)
                 (adjacent_pairs stages) (progressedCounts st)
      in \<lparr>progressedCounts = pc, reachedCounts = rc\<rparr>)"

definition progression_counts :: "string list \<Rightarrow> deal list \<Rightarrow> prog_state" where
  "progression_counts stages deals =
     fold (progression_deal stages) deals
       \<lparr>progressedCounts = Map.empty,
        reachedCounts = fold (\<lambda>s m. assign s 0 m) stages Map.empty\<rparr>"

record edge =
  from_reached :: jsread
  e_progressed :: nat
  p_advance :: jsnumber

record progression_result =
  pr_progression :: "string \<rightharpoonup> edge"
  pr_stageLoss :: "string \<rightharpoonup> jsnumber"
  pr_reachedCounts :: "string \<rightharpoonup> nat"

definition advance_edge :: "prog_state \<Rightarrow> string \<Rightarrow> string \<Rightarrow> edge" where
  "advance_edge st s s1 =
     (let fromReached = read_or_0 (reachedCounts st) s;
          progressed = get0 (progressedCounts st) (pkey s s1)
      in \<lparr>from_reached = fromReached, e_progressed = progressed,
          p_advance =
            (case fromReached of
               Counted n \<Rightarrow> if n \<noteq> 0 then Finite (fdiv (of_nat progressed) (of_nat n)) else Finite 0
             | Inherited \<Rightarrow> NaN)\<rparr>)"

definition one_minus :: "jsnumber \<Rightarrow> jsnumber" where
  \<comment> \<open>\<^verbatim>\<open>1 - p_advance\<close>\<close>
  "one_minus p = (case p of Finite x \<Rightarrow> Finite (fsub 1 x) | NaN \<Rightarrow> NaN)"

definition computeProgression :: "string list \<Rightarrow> deal list \<Rightarrow> progression_result" where
  "computeProgression stages deals =
     (let st = progression_counts stages deals
      in \<lparr>pr_progression =
            fold (\<lambda>(s, s1) m. assign (pkey s s1) (advance_edge st s s1) m)
              (adjacent_pairs stages) Map.empty,
          pr_stageLoss =
            fold (\<lambda>(s, s1) m. assign s (one_minus (p_advance (advance_edge st s s1))) m)
              (adjacent_pairs stages) Map.empty,
          pr_reachedCounts = reachedCounts st\<rparr>)"

subsection \<open>computeStats\<close>

definition ever :: "deal \<Rightarrow> string list" where
  \<comment> \<open>\<^verbatim>\<open>new Set(hist.map(h => h.value))\<close>: each stage once\<close>
  "ever d = remdups (map h_value (d_history d))"

definition isWon :: "string option \<Rightarrow> deal \<Rightarrow> bool" where
  \<comment> \<open>\<^verbatim>\<open>d.properties.hs_is_closed_won === 'true' || ever.has(wonStage)\<close>\<close>
  "isWon wonStage d =
     (d_is_closed_won d = JString ''true'' \<or>
      (case wonStage of None \<Rightarrow> False | Some w \<Rightarrow> w \<in> set (ever d)))"

definition amt :: "deal \<Rightarrow> rat" where
  \<comment> \<open>\<^verbatim>\<open>parseFloat(d.properties.amount || '0') || 0\<close>\<close>
  "amt d = (case d_amount d of None \<Rightarrow> 0 | Some a \<Rightarrow> fl a)"

record stats_state =
  ss_reached :: "string \<rightharpoonup> nat"
  ss_wonAfter :: "string \<rightharpoonup> nat"
  ss_wonCount :: nat
  ss_wonSum :: rat

definition stats_deal :: "string option \<Rightarrow> deal \<Rightarrow> stats_state \<Rightarrow> stats_state" where
  \<comment> \<open>the body of the loop over the deals\<close>
  "stats_deal wonStage d st =
     (if d_history d = [] then st
      else let st1 = st\<lparr>ss_reached := fold bump (ever d) (ss_reached st)\<rparr>
           in if isWon wonStage d
              then st1\<lparr>ss_wonAfter := fold bump (ever d) (ss_wonAfter st1),
                       ss_wonCount := ss_wonCount st1 + 1,
                       ss_wonSum := (if 0 < amt d then fadd (ss_wonSum st1) (amt d)
                                     else ss_wonSum st1)\<rparr>
              else st1)"

definition stats_counts :: "string option \<Rightarrow> deal list \<Rightarrow> stats_state" where
  "stats_counts wonStage deals =
     fold (stats_deal wonStage) deals
       \<lparr>ss_reached = Map.empty, ss_wonAfter = Map.empty, ss_wonCount = 0, ss_wonSum = 0\<rparr>"

record completion_rec =
  c_reached :: nat
  c_wonAfter :: nat
  p_win :: rat
  euro_value :: rat

record stats_result =
  avgWon :: rat
  reached :: "string \<rightharpoonup> nat"
  wonAfter :: "string \<rightharpoonup> nat"
  completion :: "string \<rightharpoonup> completion_rec"
  progression :: "string \<rightharpoonup> edge"
  stageLoss :: "string \<rightharpoonup> jsnumber"

definition completion_of :: "stats_state \<Rightarrow> rat \<Rightarrow> string \<Rightarrow> completion_rec" where
  "completion_of st avg s =
     (let r = get0 (ss_reached st) s;
          w = get0 (ss_wonAfter st) s;
          pWin = (if r \<noteq> 0 then fdiv (of_nat w) (of_nat r) else 0)
      in \<lparr>c_reached = r, c_wonAfter = w, p_win = pWin, euro_value = fmul avg pWin\<rparr>)"

definition computeStats ::
  "deal list \<Rightarrow> string list \<Rightarrow> string option \<Rightarrow> rat option \<Rightarrow> stats_result" where
  "computeStats deals stages wonStage avgWonOverride =
     (let st = stats_counts wonStage deals;
          avg = (case avgWonOverride of
                   Some v \<Rightarrow> v
                 | None \<Rightarrow> if ss_wonCount st \<noteq> 0
                           then fdiv (ss_wonSum st) (of_nat (ss_wonCount st)) else 0);
          pr = computeProgression stages deals
      in \<lparr>avgWon = avg,
          reached = ss_reached st,
          wonAfter = ss_wonAfter st,
          completion = fold (\<lambda>s m. assign s (completion_of st avg s) m) stages Map.empty,
          progression = pr_progression pr,
          stageLoss = pr_stageLoss pr\<rparr>)"

subsection \<open>Notions of the specification\<close>

definition reaches :: "string \<Rightarrow> deal \<Rightarrow> bool" where
  \<comment> \<open>reached: the stage history contains the stage at least once\<close>
  "reaches s d = (s \<in> h_value ` set (d_history d))"

definition earliest :: "deal \<Rightarrow> string \<Rightarrow> int" where
  \<comment> \<open>the earliest timestamp at which the stage appears in the history\<close>
  "earliest d s = Min (h_timestamp ` {h \<in> set (d_history d). h_value h = s})"

definition progressed_spec :: "deal \<Rightarrow> string \<Rightarrow> string \<Rightarrow> bool" where
  \<comment> \<open>progressed: both stages appear in the history and the earliest timestamp of the
      later stage is strictly greater than the earliest timestamp of the earlier one\<close>
  "progressed_spec d s s1 = (reaches s d \<and> reaches s1 d \<and> earliest d s < earliest d s1)"

definition progressed_count_spec :: "string list \<Rightarrow> deal list \<Rightarrow> string \<Rightarrow> nat" where
  \<comment> \<open>one count for each deal and each adjacent pair of the stages list whose key is \<open>k\<close>
      and along which the deal has progressed\<close>
  "progressed_count_spec stages deals k =
     sum_list (map (\<lambda>d. length (filter
         (\<lambda>i. stages ! i @ ''->'' @ stages ! (i + 1) = k \<and>
              progressed_spec d (stages ! i) (stages ! (i + 1)))
         [0..<length stages - 1])) deals)"

definition first_where :: "('a \<Rightarrow> bool) \<Rightarrow> 'a list \<Rightarrow> 'a option" where
  \<comment> \<open>the first element of the list with the property\<close>
  "first_where P xs = (case filter P xs of [] \<Rightarrow> None | x # _ \<Rightarrow> Some x)"

definition pipe_stages :: "pipeline_def \<Rightarrow> stage_def list" where
  "pipe_stages pipe = (case p_stages pipe of None \<Rightarrow> [] | Some ss \<Rightarrow> ss)"

definition selected_spec :: "pipeline_def list \<Rightarrow> string option \<Rightarrow> pipeline_def \<Rightarrow> bool" where
  \<comment> \<open>the pipeline definition found: the first with the given identifier, or the first of
      the catalog when no identifier is given\<close>
  "selected_spec ps pid pipe =
     (if truthy pid then first_where (\<lambda>p. Some (p_id p) = pid) ps = Some pipe
      else (\<exists>rest. ps = pipe # rest))"

definition label_contains :: "(string \<Rightarrow> string) \<Rightarrow> stage_def \<Rightarrow> string \<Rightarrow> bool" where
  \<comment> \<open>the label of the stage contains the alias, case-insensitively\<close>
  "label_contains lower s a =
     sublist (lower a) (lower (case st_label s of None \<Rightarrow> [] | Some l \<Rightarrow> l))"

definition resolve_spec :: "(string \<Rightarrow> string) \<Rightarrow> stage_def list \<Rightarrow> string list \<Rightarrow> string option" where
  \<comment> \<open>the first alias, in alias-list order, that some label contains decides; the first
      stage whose label contains it is the match\<close>
  "resolve_spec lower sts aliases =
     (case first_where (\<lambda>a. \<exists>s\<in>set sts. label_contains lower s a) aliases of
        None \<Rightarrow> None
      | Some a \<Rightarrow> map_option st_id (first_where (\<lambda>s. label_contains lower s a) sts))"

definition entry_aliases_spec :: "(string \<rightharpoonup> string list) \<Rightarrow> string \<Rightarrow> string list" where
  \<comment> \<open>the alias list of a canonical entry, the entry's own name when the map has none\<close>
  "entry_aliases_spec aliasMap key = (case aliasMap key of None \<Rightarrow> [key] | Some as \<Rightarrow> as)"

definition mapped_spec ::
  "(string \<Rightarrow> string) \<Rightarrow> stage_def list \<Rightarrow> string list \<Rightarrow> (string \<rightharpoonup> string list) \<Rightarrow> string list" where
  \<comment> \<open>the mapped list: in canonical order, the stage id of each entry that resolves\<close>
  "mapped_spec lower sts friendlyOrder aliasMap =
     concat (map (\<lambda>key. case resolve_spec lower sts (entry_aliases_spec aliasMap key) of
                          None \<Rightarrow> []
                        | Some i \<Rightarrow> if i = [] then [] else [i]) friendlyOrder)"

definition pair_hits :: "string list \<Rightarrow> string \<Rightarrow> deal \<Rightarrow> nat" where
  \<comment> \<open>the adjacent pairs of the stages list that are stored under key \<open>k\<close> and along
      which the deal has progressed\<close>
  "pair_hits stages k d =
     length (filter (\<lambda>(s, s1). pkey s s1 = k \<and> progressed (sorted_hist d) s s1)
               (adjacent_pairs stages))"

subsection \<open>Sample inputs\<close>

definition ascii_lower_char :: "char \<Rightarrow> char" where
  "ascii_lower_char c =
     (let n = (of_char c :: nat) in if 65 \<le> n \<and> n \<le> 90 then char_of (n + 32) else c)"

definition ascii_lower :: "string \<Rightarrow> string" where
  \<comment> \<open>what \<^verbatim>\<open>toLowerCase\<close> returns on ASCII text, the text of the samples\<close>
  "ascii_lower s = map ascii_lower_char s"

definition nowon_pipeline :: pipeline_def where
  \<comment> \<open>no label contains an alias of the closedwon entry\<close>
  "nowon_pipeline = \<lparr>p_id = ''p3'', p_stages = Some
     [\<lparr>st_id = ''31'', st_label = Some ''Negotiation''\<rparr>,
      \<lparr>st_id = ''32'', st_label = Some ''SQL''\<rparr>]\<rparr>"

definition won_first_order :: "string list" where
  "won_first_order = [''closedwon'', ''inbox'', ''negotiation'']"

definition he :: "string \<Rightarrow> int \<Rightarrow> hist_entry" where
  "he v t = \<lparr>h_value = v, h_timestamp = t\<rparr>"

definition mk_deal :: "rat option \<Rightarrow> jsval \<Rightarrow> hist_entry list \<Rightarrow> deal" where
  "mk_deal a f h =
     \<lparr>d_amount = a, d_is_closed_won = f, d_pipeline = Some ''default'',
      d_createdate = Some 1700000000000, d_history = h\<rparr>"

definition deal_full :: deal where
  \<comment> \<open>progresses through the funnel and wins; the history arrives out of order\<close>
  "deal_full = mk_deal (Some 1000) (JString ''true'')
     [he ''closedwon'' 30, he ''inbox'' 10, he ''sequenced'' 20, he ''inbox'' 40]"

definition deal_proto :: deal where
  "deal_proto = mk_deal None (JString ''false'') [he ''__proto__'' 1]"

definition deal_inbox :: deal where
  "deal_inbox = mk_deal None (JString ''false'') [he ''inbox'' 5]"

definition deal_nohist :: deal where
  "deal_nohist = mk_deal (Some 100) (JString ''true'') []"

definition funnel3 :: "string list" where
  "funnel3 = [''inbox'', ''sequenced'', ''closedwon'']"

definition deal_at :: "int \<Rightarrow> string \<Rightarrow> deal" where
  \<comment> \<open>a deal created at the given time in the given pipeline\<close>
  "deal_at c p =
     \<lparr>d_amount = None, d_is_closed_won = JString ''false'', d_pipeline = Some p,
      d_createdate = Some c, d_history = []\<rparr>"

definition sample_store :: store where
  \<comment> \<open>two pages, the first with the cursor \<open>c1\<close>\<close>
  "sample_store after =
     (if after = None
      then \<lparr>results = [deal_at 5 ''default'', deal_at 50 ''default'', deal_at 4 ''default''],
            next_after = Some ''c1''\<rparr>
      else \<lparr>results = [deal_at 10 ''other'', deal_at 20 ''default''], next_after = None\<rparr>)"

definition deal_won100 :: deal where
  "deal_won100 = mk_deal (Some 100) (JString ''true'') [he ''inbox'' 1, he ''closedwon'' 2]"

definition deal_won_blank :: deal where
  "deal_won_blank = mk_deal None (JString ''true'') [he ''inbox'' 1, he ''closedwon'' 2]"

definition deal_boolflag :: deal where
  \<comment> \<open>the flag arrives as the boolean true, the history never shows the won stage\<close>
  "deal_boolflag = mk_deal (Some 100) (JBool True) [he ''inbox'' 5]"

definition won_deals :: "string option \<Rightarrow> deal list \<Rightarrow> deal list" where
  \<comment> \<open>the deals the loop of computeStats classifies as won\<close>
  "won_deals wonStage ds = filter (\<lambda>d. d_history d \<noteq> [] \<and> isWon wonStage d) ds"

definition avgWon_spec :: "string option \<Rightarrow> deal list \<Rightarrow> rat" where
  \<comment> \<open>the specification's average: sum and count both over the won deals of positive amount\<close>
  "avgWon_spec wonStage ds =
     (let pos = filter (\<lambda>d. 0 < amt d) (won_deals wonStage ds)
      in if pos = [] then 0 else fdiv (foldl fadd 0 (map amt pos)) (of_nat (length pos)))"

definition flag_true :: "jsval \<Rightarrow> bool" where
  \<comment> \<open>the specification's boolean flag, in either representation\<close>
  "flag_true v = (v = JBool True \<or> v = JString ''true'')"

definition isWon_spec :: "string option \<Rightarrow> deal \<Rightarrow> bool" where
  \<comment> \<open>the specification's won-flag: the flag is true or the reached set contains wonStage\<close>
  "isWon_spec wonStage d =
     (flag_true (d_is_closed_won d) \<or> (case wonStage of None \<Rightarrow> False | Some w \<Rightarrow> reaches w d))"

definition deal_a :: deal where
  "deal_a = mk_deal (Some (149999 / 100)) (JString ''true'') [he ''closedwon'' 1]"

definition deal_b :: deal where
  "deal_b = mk_deal (Some (250001 / 100)) (JString ''true'') [he ''closedwon'' 2]"

definition deal_c :: deal where
  "deal_c = mk_deal (Some (9999 / 10)) (JString ''true'') [he ''closedwon'' 3]"

definition stages_collide :: "string list" where
  \<comment> \<open>two adjacent pairs with the same progression key\<close>
  "stages_collide = [''a->b'', ''c'', ''a'', ''b->c'']"

definition deal_collide :: deal where
  "deal_collide = mk_deal None (JString ''false'')
     [he ''a->b'' 1, he ''c'' 2, he ''a'' 3, he ''b->c'' 4]"

section \<open>Stage resolution\<close>

lemma find_first_where: "find P xs = first_where P xs"
  by (induction xs) (simp_all add: first_where_def)

lemma find_map_conv: "find P (map f xs) = map_option f (find (\<lambda>x. P (f x)) xs)"
  by (induction xs) simp_all

lemma first_where_None_iff: "first_where P xs = None \<longleftrightarrow> (\<forall>x\<in>set xs. \<not> P x)"
  by (induction xs) (auto simp: first_where_def)

lemma first_where_map: "first_where P (map f xs) = map_option f (first_where (\<lambda>x. P (f x)) xs)"
  by (simp add: find_first_where [symmetric] find_map_conv)

lemma find_pipe_selected: "find_pipe ps pid = Some pipe \<longleftrightarrow> selected_spec ps pid pipe"
  by (cases ps) (auto simp: find_pipe_def selected_spec_def find_first_where)

lemma find_pipe_None_iff:
  "find_pipe ps pid = None \<longleftrightarrow>
     (truthy pid \<and> (\<forall>p\<in>set ps. Some (p_id p) \<noteq> pid)) \<or> (\<not> truthy pid \<and> ps = [])"
  by (auto simp: find_pipe_def find_None_iff split: list.splits)

lemma closedwon_not_inherited: "''closedwon'' \<notin> set OBJECT_PROTOTYPE_KEYS"
  by (simp add: OBJECT_PROTOTYPE_KEYS_def)

lemma aliases_of_cases:
  "aliases_of am key =
     (if am key = None \<and> key \<in> set OBJECT_PROTOTYPE_KEYS then Inl TypeError
      else Inr (entry_aliases_spec am key))"
  by (simp add: aliases_of_def entry_aliases_spec_def split: option.splits)

lemma find_stageList:
  "find (\<lambda>s. str_includes (ns_label s) (lower a)) (stageList lower pipe)
     = map_option (\<lambda>s. \<lparr>ns_id = st_id s,
                          ns_label = lower (case st_label s of None \<Rightarrow> [] | Some l \<Rightarrow> l)\<rparr>)
         (first_where (\<lambda>s. label_contains lower s a) (pipe_stages pipe))"
  by (simp add: stageList_def pipe_stages_def str_includes_def label_contains_def
      find_first_where first_where_map)

lemma findIdByAliases_spec:
  "findIdByAliases lower (stageList lower pipe) as = resolve_spec lower (pipe_stages pipe) as"
proof (induction as)
  case Nil
  then show ?case by (simp add: resolve_spec_def first_where_def)
next
  case (Cons a as)
  show ?case
  proof (cases "\<exists>s\<in>set (pipe_stages pipe). label_contains lower s a")
    case True
    then obtain s where s: "first_where (\<lambda>s. label_contains lower s a) (pipe_stages pipe) = Some s"
      using first_where_None_iff [of "\<lambda>s. label_contains lower s a" "pipe_stages pipe"] by auto
    have "resolve_spec lower (pipe_stages pipe) (a # as) = Some (st_id s)"
      using True s by (simp add: resolve_spec_def first_where_def)
    then show ?thesis by (simp add: find_stageList s)
  next
    case False
    then have n: "first_where (\<lambda>s. label_contains lower s a) (pipe_stages pipe) = None"
      by (simp add: first_where_None_iff)
    have "resolve_spec lower (pipe_stages pipe) (a # as) = resolve_spec lower (pipe_stages pipe) as"
      using False by (simp add: resolve_spec_def first_where_def)
    then show ?thesis by (simp add: find_stageList n Cons.IH)
  qed
qed

lemma map_keys_spec:
  assumes "\<forall>key\<in>set fo. am key = None \<longrightarrow> key \<notin> set OBJECT_PROTOTYPE_KEYS"
  shows "map_keys lower (stageList lower pipe) am acc fo
           = Inr (acc @ mapped_spec lower (pipe_stages pipe) fo am)"
  using assms
proof (induction fo arbitrary: acc)
  case Nil
  then show ?case by (simp add: mapped_spec_def)
next
  case (Cons key fo)
  then show ?case
    by (auto simp: aliases_of_cases findIdByAliases_spec mapped_spec_def split: option.splits)
qed

lemma map_keys_TypeError:
  assumes "\<exists>key\<in>set fo. am key = None \<and> key \<in> set OBJECT_PROTOTYPE_KEYS"
  shows "map_keys lower sl am acc fo = Inl TypeError"
  using assms
proof (induction fo arbitrary: acc)
  case Nil
  then show ?case by simp
next
  case (Cons key fo)
  then show ?case
    by (cases "am key = None \<and> key \<in> set OBJECT_PROTOTYPE_KEYS")
       (auto simp: aliases_of_cases split: sum.splits)
qed

lemma closedWonId_spec:
  "closedWonId lower (stageList lower pipe) am
     = Inr (resolve_spec lower (pipe_stages pipe) (entry_aliases_spec am ''closedwon''))"
  by (simp add: closedWonId_def aliases_of_cases closedwon_not_inherited findIdByAliases_spec)

lemma mapped_spec_nonempty_ids: "[] \<notin> set (mapped_spec lower sts fo am)"
  by (auto simp: mapped_spec_def split: option.splits if_splits)

lemma resolveStages_found:
  assumes "selected_spec ps pid pipe"
    and "\<forall>key\<in>set fo. am key = None \<longrightarrow> key \<notin> set OBJECT_PROTOTYPE_KEYS"
  shows "resolveStages lower ps pid fo am =
     (let m = mapped_spec lower (pipe_stages pipe) fo am;
          w = resolve_spec lower (pipe_stages pipe) (entry_aliases_spec am ''closedwon'')
      in case w of
           None \<Rightarrow> Inr \<lparr>r_stages = m, r_wonStage = last_opt m\<rparr>
         | Some c \<Rightarrow>
             if c = [] then Inr \<lparr>r_stages = m, r_wonStage = last_opt m\<rparr>
             else Inr \<lparr>r_stages = filter (\<lambda>s. s \<noteq> c) m @ [c], r_wonStage = Some c\<rparr>)"
proof -
  have f: "find_pipe ps pid = Some pipe"
    using assms(1) by (simp add: find_pipe_selected)
  have m: "mapped_ids lower (stageList lower pipe) fo am
             = Inr (mapped_spec lower (pipe_stages pipe) fo am)"
    using map_keys_spec [OF assms(2), of lower pipe "[]"] by (simp add: mapped_ids_def)
  have keep: "filter (\<lambda>s. s \<noteq> []) (mapped_spec lower (pipe_stages pipe) fo am)
                = mapped_spec lower (pipe_stages pipe) fo am"
    using mapped_spec_nonempty_ids [of lower "pipe_stages pipe" fo am]
    by (simp add: filter_id_conv) metis
  show ?thesis
    by (simp add: resolveStages_def f m closedWonId_spec Let_def truthy_def keep
        split: option.splits)
qed

lemma resolveStages_error_cases:
  "resolveStages lower ps pid fo am = Inl e \<longleftrightarrow>
     (e = NoPipeline \<and> find_pipe ps pid = None) \<or>
     (e = TypeError \<and> find_pipe ps pid \<noteq> None \<and>
        (\<exists>key\<in>set fo. am key = None \<and> key \<in> set OBJECT_PROTOTYPE_KEYS))"
proof (cases "find_pipe ps pid")
  case None
  then show ?thesis by (auto simp: resolveStages_def)
next
  case (Some pipe)
  show ?thesis
  proof (cases "\<exists>key\<in>set fo. am key = None \<and> key \<in> set OBJECT_PROTOTYPE_KEYS")
    case True
    then have "resolveStages lower ps pid fo am = Inl TypeError"
      by (simp add: resolveStages_def Some mapped_ids_def map_keys_TypeError)
    with True Some show ?thesis by auto
  next
    case False
    then have "\<forall>key\<in>set fo. am key = None \<longrightarrow> key \<notin> set OBJECT_PROTOTYPE_KEYS" by blast
    from resolveStages_found [OF _ this, of ps pid pipe lower] Some
    have "\<exists>r. resolveStages lower ps pid fo am = Inr r"
      by (auto simp: find_pipe_selected Let_def split: option.splits if_splits)
    with False Some show ?thesis by auto
  qed
qed

lemma resolveStages_NoPipeline_iff:
  "resolveStages lower ps pid fo am = Inl NoPipeline \<longleftrightarrow>
     (truthy pid \<and> (\<forall>p\<in>set ps. Some (p_id p) \<noteq> pid)) \<or> (\<not> truthy pid \<and> ps = [])"
  by (simp add: resolveStages_error_cases find_pipe_None_iff)

lemma resolveStages_no_alias_match:
  assumes "selected_spec ps pid pipe"
    and "\<forall>key\<in>set fo. am key = None \<longrightarrow> key \<notin> set OBJECT_PROTOTYPE_KEYS"
    and "\<forall>key\<in>set fo \<union> {''closedwon''}. \<forall>a\<in>set (entry_aliases_spec am key).
           \<forall>s\<in>set (pipe_stages pipe). \<not> label_contains lower s a"
  shows "resolveStages lower ps pid fo am = Inr \<lparr>r_stages = [], r_wonStage = None\<rparr>"
proof -
  have none: "resolve_spec lower (pipe_stages pipe) (entry_aliases_spec am key) = None"
    if "key \<in> set fo \<union> {''closedwon''}" for key
  proof -
    have "first_where (\<lambda>a. \<exists>s\<in>set (pipe_stages pipe). label_contains lower s a)
            (entry_aliases_spec am key) = None"
      unfolding first_where_None_iff using assms(3) that by blast
    then show ?thesis by (simp add: resolve_spec_def)
  qed
  have "mapped_spec lower (pipe_stages pipe) fo am = []"
    by (simp add: mapped_spec_def none)
  then show ?thesis
    using resolveStages_found [OF assms(1,2), of lower] none [of "''closedwon''"]
    by (simp add: Let_def last_opt_def)
qed

lemma selected_demo: "selected_spec [demo_pipeline] None demo_pipeline"
  by (simp add: selected_spec_def truthy_def)

lemma selected_nowon: "selected_spec [demo_pipeline, nowon_pipeline] (Some ''p3'') nowon_pipeline"
  by (simp add: selected_spec_def truthy_def first_where_def demo_pipeline_def nowon_pipeline_def)

lemma default_keys_own: "\<forall>key\<in>set FRIENDLY_ORDER. DEFAULT_ALIASES key = None \<longrightarrow> key \<notin> set OBJECT_PROTOTYPE_KEYS"
  by (simp add: FRIENDLY_ORDER_def DEFAULT_ALIASES_def)

lemma won_first_keys_own: "\<forall>key\<in>set won_first_order. DEFAULT_ALIASES key = None \<longrightarrow> key \<notin> set OBJECT_PROTOTYPE_KEYS"
  by (simp add: won_first_order_def DEFAULT_ALIASES_def)

text \<open>
  C5. Whenever resolveStages returns: when the closedwon entry resolves to a stage id, the
  returned stages are the mapped list without that id, followed by that id, and wonStage
  is that id; when it does not resolve, the returned stages are the mapped list unchanged
  and wonStage is its last element, none on the empty list. It returns when a pipeline is
  found and no canonical key without an entry of its own in the alias map names a member
  of Object.prototype.
\<close>

theorem resolveStages_won_last:
  assumes "selected_spec ps pid pipe"
    and "\<forall>key\<in>set fo. am key = None \<longrightarrow> key \<notin> set OBJECT_PROTOTYPE_KEYS"
  shows "(\<forall>c. resolve_spec lower (pipe_stages pipe) (entry_aliases_spec am ''closedwon'') = Some c
              \<and> c \<noteq> [] \<longrightarrow>
            resolveStages lower ps pid fo am =
              Inr \<lparr>r_stages = filter (\<lambda>s. s \<noteq> c) (mapped_spec lower (pipe_stages pipe) fo am) @ [c],
                   r_wonStage = Some c\<rparr>)
       \<and> (resolve_spec lower (pipe_stages pipe) (entry_aliases_spec am ''closedwon'') \<in> {None, Some []} \<longrightarrow>
            resolveStages lower ps pid fo am =
              Inr \<lparr>r_stages = mapped_spec lower (pipe_stages pipe) fo am,
                   r_wonStage =
                     (if mapped_spec lower (pipe_stages pipe) fo am = [] then None
                      else Some (last (mapped_spec lower (pipe_stages pipe) fo am)))\<rparr>)"
  using resolveStages_found [OF assms, of lower]
  by (auto simp: Let_def last_opt_def)

theorem resolveStages_won_last_witness:
  "selected_spec [demo_pipeline] None demo_pipeline
   \<and> resolve_spec ascii_lower (pipe_stages demo_pipeline)
        (entry_aliases_spec DEFAULT_ALIASES ''closedwon'') = Some ''11''
   \<and> mapped_spec ascii_lower (pipe_stages demo_pipeline) won_first_order DEFAULT_ALIASES
        = [''11'', ''12'', ''13'']
   \<and> resolveStages ascii_lower [demo_pipeline] None won_first_order DEFAULT_ALIASES =
       Inr \<lparr>r_stages = [''12'', ''13'', ''11''], r_wonStage = Some ''11''\<rparr>
   \<and> selected_spec [demo_pipeline, nowon_pipeline] (Some ''p3'') nowon_pipeline
   \<and> resolve_spec ascii_lower (pipe_stages nowon_pipeline)
        (entry_aliases_spec DEFAULT_ALIASES ''closedwon'') = None
   \<and> mapped_spec ascii_lower (pipe_stages nowon_pipeline) FRIENDLY_ORDER DEFAULT_ALIASES
        = [''32'', ''31'']
   \<and> resolveStages ascii_lower [demo_pipeline, nowon_pipeline] (Some ''p3'') FRIENDLY_ORDER
        DEFAULT_ALIASES = Inr \<lparr>r_stages = [''32'', ''31''], r_wonStage = Some ''31''\<rparr>"
proof -
  have c: "resolve_spec ascii_lower (pipe_stages demo_pipeline)
        (entry_aliases_spec DEFAULT_ALIASES ''closedwon'') = Some ''11''"
    by code_simp
  have m: "mapped_spec ascii_lower (pipe_stages demo_pipeline) won_first_order DEFAULT_ALIASES
        = [''11'', ''12'', ''13'']"
    by code_simp
  have c': "resolve_spec ascii_lower (pipe_stages nowon_pipeline)
        (entry_aliases_spec DEFAULT_ALIASES ''closedwon'') = None"
    by code_simp
  have m': "mapped_spec ascii_lower (pipe_stages nowon_pipeline) FRIENDLY_ORDER DEFAULT_ALIASES
        = [''32'', ''31'']"
    by code_simp
  show ?thesis
    using resolveStages_won_last [OF selected_demo won_first_keys_own, of ascii_lower]
      resolveStages_won_last [OF selected_nowon default_keys_own, of ascii_lower]
      c m c' m' selected_demo selected_nowon
    by simp
qed

text \<open>
  C6 fails on the code. With a pipeline found, a canonical key that has no entry of its
  own in the alias map and names a member of Object.prototype makes
  \<^verbatim>\<open>aliasMap[key] || [key]\<close> an inherited function, and the loop over it raises a
  TypeError: on the canonical order inbox, constructor with the default alias map
  resolveStages does not return. (\<open>resolveStages_NoPipeline_iff\<close> and
  \<open>resolveStages_error_cases\<close> above show that the configuration error is raised exactly
  when no pipeline is found and that this TypeError is the only other way not to return.)
\<close>

theorem resolveStages_inherited_key_raises:
  "selected_spec [demo_pipeline] None demo_pipeline
   \<and> resolveStages ascii_lower [demo_pipeline] None [''inbox'', ''constructor''] DEFAULT_ALIASES
       = Inl TypeError"
proof -
  have "resolveStages ascii_lower [demo_pipeline] None [''inbox'', ''constructor''] DEFAULT_ALIASES
       = Inl TypeError"
    by code_simp
  with selected_demo show ?thesis by simp
qed

text \<open>
  C10 fails on the code, by the defect of C6. The pipeline p2 is found and no label of it
  contains an alias of the canonical entries constructor and closedwon, yet on the
  canonical order constructor with the default alias map resolveStages raises a TypeError
  where the claim has it return the empty stages list. (\<open>resolveStages_no_alias_match\<close>
  above shows the empty result when no canonical key without an entry of its own names a
  member of Object.prototype.)
\<close>

theorem resolveStages_no_match_raises:
  "resolve_spec ascii_lower (pipe_stages unmatched_pipeline) [''constructor''] = None
   \<and> resolve_spec ascii_lower (pipe_stages unmatched_pipeline)
        (entry_aliases_spec DEFAULT_ALIASES ''closedwon'') = None
   \<and> resolveStages ascii_lower [demo_pipeline, unmatched_pipeline] (Some ''p2'') [''constructor'']
        DEFAULT_ALIASES = Inl TypeError"
  by code_simp

section \<open>Counters\<close>

lemma get0_simps [simp]: "get0 Map.empty k = 0" "get0 (m(k \<mapsto> n)) k = n"
  "k' \<noteq> k \<Longrightarrow> get0 (m(k \<mapsto> n)) k' = get0 m k'"
  by (simp_all add: get0_def)

lemma bump_apply: "bump k m k' = (if k' = k then Some (get0 m k + 1) else m k')"
  by (simp add: bump_def)

lemma fold_bump_distinct:
  "distinct xs \<Longrightarrow> fold bump xs m k = (if k \<in> set xs then Some (get0 m k + 1) else m k)"
proof (induction xs arbitrary: m)
  case Nil
  then show ?case by simp
next
  case (Cons x xs)
  then show ?case by (auto simp: bump_apply get0_def)
qed

lemma proto_inherited: "''__proto__'' \<in> set OBJECT_PROTOTYPE_KEYS"
  by (simp add: OBJECT_PROTOTYPE_KEYS_def)

lemma inherited_no_gt: "\<forall>k\<in>set OBJECT_PROTOTYPE_KEYS. CHR ''>'' \<notin> set k"
  by (simp add: OBJECT_PROTOTYPE_KEYS_def)

lemma pkey_has_gt: "CHR ''>'' \<in> set (pkey s s1)"
  by (simp add: pkey_def)

lemma pkey_not_inherited: "pkey s s1 \<notin> set OBJECT_PROTOTYPE_KEYS"
  using inherited_no_gt pkey_has_gt [of s s1] by blast

lemma pkey_not_proto: "pkey s s1 \<noteq> ''__proto__''"
  using pkey_not_inherited [of s s1] proto_inherited by metis

lemma assign_pkey [simp]: "assign (pkey s s1) v m = m(pkey s s1 \<mapsto> v)"
  by (simp add: assign_def pkey_not_proto)

lemma read_or_0_pkey: "read_or_0 m (pkey s s1) = Counted (get0 m (pkey s s1))"
  by (simp add: read_or_0_def get0_def pkey_not_inherited split: option.splits)

lemma fold_assign_apply:
  "fold (\<lambda>s m. assign s (f s) m) stages m k =
     (if k \<in> set stages \<and> k \<noteq> ''__proto__'' then Some (f k) else m k)"
  by (induction stages arbitrary: m) (auto simp: assign_def)

lemma fold_incr:
  "fold (\<lambda>s rc. if P s then incr s rc else rc) stages rc k =
     (case rc k of None \<Rightarrow> None
      | Some n \<Rightarrow> Some (n + (if P k then count_list stages k else 0)))"
proof (induction stages arbitrary: rc)
  case Nil
  then show ?case by (simp split: option.splits)
next
  case (Cons x xs)
  then show ?case by (auto simp: incr_def split: option.splits)
qed

lemma fold_bump_if:
  "fold (\<lambda>x pc. if P x then bump (key x) pc else pc) xs pc k =
     (let n = length (filter (\<lambda>x. key x = k \<and> P x) xs)
      in if n = 0 then pc k else Some (get0 pc k + n))"
proof (induction xs arbitrary: pc)
  case Nil
  then show ?case by simp
next
  case (Cons x xs)
  then show ?case by (auto simp: bump_apply Let_def get0_def)
qed



section \<open>Closed forms of the two passes over the deals\<close>

lemma reaches_ever: "s \<in> set (ever d) \<longleftrightarrow> reaches s d"
  by (simp add: ever_def reaches_def)

lemma reaches_sorted: "s \<in> set (map h_value (sorted_hist d)) \<longleftrightarrow> reaches s d"
  by (simp add: sorted_hist_def reaches_def)

lemma reaches_nonempty: "reaches s d \<Longrightarrow> d_history d \<noteq> []"
  by (auto simp: reaches_def)

lemma progression_deal_rc:
  "reachedCounts (progression_deal stages d st) s =
     (case reachedCounts st s of None \<Rightarrow> None
      | Some n \<Rightarrow> Some (n + (if reaches s d then count_list stages s else 0)))"
  unfolding progression_deal_def Let_def
  by (simp add: fold_incr reaches_sorted del: set_map)

lemma progression_deal_pc:
  "progressedCounts (progression_deal stages d st) k =
     (if pair_hits stages k d = 0 then progressedCounts st k
      else Some (get0 (progressedCounts st) k + pair_hits stages k d))"
proof -
  have "(\<lambda>(s, s1) pc. if progressed (sorted_hist d) s s1 then bump (pkey s s1) pc else pc)
        = (\<lambda>x pc. if (case x of (s, s1) \<Rightarrow> progressed (sorted_hist d) s s1)
                   then bump (case x of (s, s1) \<Rightarrow> pkey s s1) pc else pc)"
    by (auto simp: fun_eq_iff)
  moreover have "(\<lambda>x. (case x of (s, s1) \<Rightarrow> pkey s s1) = k \<and>
                      (case x of (s, s1) \<Rightarrow> progressed (sorted_hist d) s s1))
        = (\<lambda>(s, s1). pkey s s1 = k \<and> progressed (sorted_hist d) s s1)"
    by (auto simp: fun_eq_iff)
  ultimately show ?thesis
    unfolding progression_deal_def pair_hits_def
    by (simp add: fold_bump_if Let_def)
qed

lemma fold_progression_rc:
  "reachedCounts (fold (progression_deal stages) ds st) s =
     (case reachedCounts st s of None \<Rightarrow> None
      | Some n \<Rightarrow> Some (n + count_list stages s * length (filter (reaches s) ds)))"
proof (induction ds arbitrary: st)
  case Nil
  then show ?case by (simp split: option.splits)
next
  case (Cons d ds)
  show ?case
    by (simp add: Cons.IH progression_deal_rc split: option.splits)
qed

lemma fold_progression_pc:
  "progressedCounts (fold (progression_deal stages) ds st) k =
     (if sum_list (map (pair_hits stages k) ds) = 0 then progressedCounts st k
      else Some (get0 (progressedCounts st) k + sum_list (map (pair_hits stages k) ds)))"
proof (induction ds arbitrary: st)
  case Nil
  then show ?case by simp
next
  case (Cons d ds)
  show ?case
    by (simp add: Cons.IH progression_deal_pc get0_def)
qed

lemma progression_counts_rc:
  "reachedCounts (progression_counts stages ds) s =
     (if s \<in> set stages \<and> s \<noteq> ''__proto__''
      then Some (count_list stages s * length (filter (reaches s) ds)) else None)"
  by (simp add: progression_counts_def fold_progression_rc fold_assign_apply)

lemma progression_counts_pc:
  "get0 (progressedCounts (progression_counts stages ds)) k = sum_list (map (pair_hits stages k) ds)"
  by (simp add: progression_counts_def fold_progression_pc get0_def)

lemma stats_deal_reached:
  "ss_reached (stats_deal w d st) s =
     (if reaches s d then Some (get0 (ss_reached st) s + 1) else ss_reached st s)"
  using reaches_nonempty [of s d]
  by (auto simp: stats_deal_def Let_def fold_bump_distinct ever_def reaches_def)

lemma stats_deal_wonAfter:
  "ss_wonAfter (stats_deal w d st) s =
     (if reaches s d \<and> isWon w d then Some (get0 (ss_wonAfter st) s + 1) else ss_wonAfter st s)"
  using reaches_nonempty [of s d]
  by (auto simp: stats_deal_def Let_def fold_bump_distinct ever_def reaches_def)

lemma stats_deal_wonCount:
  "ss_wonCount (stats_deal w d st) =
     ss_wonCount st + (if d_history d \<noteq> [] \<and> isWon w d then 1 else 0)"
  by (simp add: stats_deal_def Let_def)

lemma stats_deal_wonSum:
  "ss_wonSum (stats_deal w d st) =
     (if d_history d \<noteq> [] \<and> isWon w d \<and> 0 < amt d then fadd (ss_wonSum st) (amt d)
      else ss_wonSum st)"
  by (simp add: stats_deal_def Let_def)

lemma fold_stats_reached:
  "ss_reached (fold (stats_deal w) ds st) s =
     (if filter (reaches s) ds = [] then ss_reached st s
      else Some (get0 (ss_reached st) s + length (filter (reaches s) ds)))"
proof (induction ds arbitrary: st)
  case Nil
  then show ?case by simp
next
  case (Cons d ds)
  show ?case
    by (simp add: Cons.IH stats_deal_reached get0_def)
qed

lemma fold_stats_wonAfter:
  "ss_wonAfter (fold (stats_deal w) ds st) s =
     (if filter (\<lambda>d. reaches s d \<and> isWon w d) ds = [] then ss_wonAfter st s
      else Some (get0 (ss_wonAfter st) s + length (filter (\<lambda>d. reaches s d \<and> isWon w d) ds)))"
proof (induction ds arbitrary: st)
  case Nil
  then show ?case by simp
next
  case (Cons d ds)
  show ?case
    by (simp add: Cons.IH stats_deal_wonAfter get0_def)
qed

lemma fold_stats_wonCount:
  "ss_wonCount (fold (stats_deal w) ds st) =
     ss_wonCount st + length (filter (\<lambda>d. d_history d \<noteq> [] \<and> isWon w d) ds)"
  by (induction ds arbitrary: st) (simp_all add: stats_deal_wonCount)

lemma fold_stats_wonSum:
  "ss_wonSum (fold (stats_deal w) ds st) =
     foldl fadd (ss_wonSum st)
       (map amt (filter (\<lambda>d. d_history d \<noteq> [] \<and> isWon w d \<and> 0 < amt d) ds))"
  by (induction ds arbitrary: st) (simp_all add: stats_deal_wonSum)

lemma stats_counts_reached:
  "get0 (ss_reached (stats_counts w ds)) s = length (filter (reaches s) ds)"
  by (simp add: stats_counts_def fold_stats_reached get0_def)

lemma stats_counts_wonAfter:
  "get0 (ss_wonAfter (stats_counts w ds)) s = length (filter (\<lambda>d. reaches s d \<and> isWon w d) ds)"
  by (simp add: stats_counts_def fold_stats_wonAfter get0_def)


section \<open>The two reached counts\<close>

lemma count_list_distinct: "distinct xs \<Longrightarrow> x \<in> set xs \<Longrightarrow> count_list xs x = 1"
  by (induction xs) (auto simp: count_list_0_iff)

lemma find_SomeD: "find P xs = Some h \<Longrightarrow> h \<in> set xs \<and> P h"
  by (induction xs) (auto split: if_splits)

lemma reached_counts_agree_own_keys:
  assumes "distinct stages" and "s \<in> set stages" and "s \<noteq> ''__proto__''"
  shows "read_or_0 (pr_reachedCounts (computeProgression stages deals)) s =
           Counted (get0 (reached (computeStats deals stages wonStage avgWonOverride)) s)"
proof -
  have "count_list stages s = 1"
    using assms(1,2) by (rule count_list_distinct)
  then have "reachedCounts (progression_counts stages deals) s =
               Some (length (filter (reaches s) deals))"
    using assms(2,3) by (simp add: progression_counts_rc)
  moreover have "get0 (reached (computeStats deals stages wonStage avgWonOverride)) s =
                   length (filter (reaches s) deals)"
    by (simp add: computeStats_def Let_def stats_counts_reached)
  ultimately show ?thesis
    by (simp add: computeProgression_def Let_def read_or_0_def)
qed

text \<open>
  C9 fails on the code. reachedCounts is an object written \<^verbatim>\<open>{}\<close> and reached one made by
  \<^verbatim>\<open>Object.create(null)\<close>. On the duplicate-free stages list \<^verbatim>\<open>__proto__\<close>, inbox and two
  deals, one that reached \<^verbatim>\<open>__proto__\<close> and one that reached inbox, line 113 cannot
  initialise and line 121 cannot increment the key \<^verbatim>\<open>__proto__\<close>: reachedCounts has no
  such property and reading it finds the inherited object, while reached counts 1 under
  that key. (\<open>reached_counts_agree_own_keys\<close> above shows that the two counts agree on
  every other stage of a duplicate-free list.)
\<close>

theorem reached_counts_differ_at_proto:
  "distinct [''__proto__'', ''inbox'']
   \<and> pr_reachedCounts (computeProgression [''__proto__'', ''inbox''] [deal_proto, deal_inbox])
        ''__proto__'' = None
   \<and> read_or_0 (pr_reachedCounts (computeProgression [''__proto__'', ''inbox'']
        [deal_proto, deal_inbox])) ''__proto__'' = Inherited
   \<and> reached (computeStats [deal_proto, deal_inbox] [''__proto__'', ''inbox''] None None)
        ''__proto__'' = Some 1
   \<and> pr_reachedCounts (computeProgression [''__proto__'', ''inbox''] [deal_proto, deal_inbox])
        ''inbox'' = Some 1
   \<and> reached (computeStats [deal_proto, deal_inbox] [''__proto__'', ''inbox''] None None)
        ''inbox'' = Some 1"
  by code_simp

section \<open>Progression along an adjacent pair\<close>

lemma find_sorted_least:
  "sorted (map f xs) \<Longrightarrow> find P xs = Some h \<Longrightarrow> h' \<in> set xs \<Longrightarrow> P h' \<Longrightarrow> f h \<le> f h'"
proof (induction xs)
  case Nil
  then show ?case by simp
next
  case (Cons x xs)
  then show ?case by (cases "P x") auto
qed

lemma first_ts_sorted_hist:
  "first_ts (sorted_hist d) s = (if reaches s d then Some (earliest d s) else None)"
proof (cases "reaches s d")
  case False
  then have "find (\<lambda>h. h_value h = s) (sorted_hist d) = None"
    by (auto simp: find_None_iff sorted_hist_def reaches_def)
  with False show ?thesis by (simp add: first_ts_def)
next
  case True
  then obtain h where h: "find (\<lambda>h. h_value h = s) (sorted_hist d) = Some h"
    by (cases "find (\<lambda>h. h_value h = s) (sorted_hist d)")
       (auto simp: find_None_iff sorted_hist_def reaches_def)
  then have mem: "h \<in> set (d_history d)" and val: "h_value h = s"
    by (auto simp: sorted_hist_def dest: find_SomeD)
  have least: "h_timestamp h \<le> h_timestamp h'" if "h' \<in> set (d_history d)" "h_value h' = s" for h'
    using find_sorted_least [of h_timestamp "sorted_hist d" "\<lambda>h. h_value h = s" h h'] h that
    by (simp add: sorted_hist_def)
  have "earliest d s = h_timestamp h"
    unfolding earliest_def
    by (rule Min_eqI) (use mem val least in auto)
  with True h show ?thesis by (simp add: first_ts_def)
qed

lemma progressed_iff_spec: "progressed (sorted_hist d) s s1 \<longleftrightarrow> progressed_spec d s s1"
  by (simp add: progressed_def first_ts_sorted_hist progressed_spec_def)

lemma pair_hits_spec:
  "pair_hits stages k d =
     length (filter (\<lambda>i. stages ! i @ ''->'' @ stages ! (i + 1) = k \<and>
                          progressed_spec d (stages ! i) (stages ! (i + 1)))
               [0..<length stages - 1])"
  by (simp add: pair_hits_def adjacent_pairs_def filter_map o_def pkey_def progressed_iff_spec)

lemma progressed_count_spec_eq:
  "sum_list (map (pair_hits stages k) ds) = progressed_count_spec stages ds k"
  by (simp add: progressed_count_spec_def pair_hits_spec [abs_def])

lemma fold_upd_key_total:
  "\<exists>x\<in>set xs. key x = k \<Longrightarrow>
   \<exists>x\<in>set xs. key x = k \<and> fold (\<lambda>x m. m(key x \<mapsto> val x)) xs m k = Some (val x)"
proof (induction xs arbitrary: m)
  case Nil
  then show ?case by simp
next
  case (Cons x xs)
  show ?case
  proof (cases "\<exists>y\<in>set xs. key y = k")
    case True
    from Cons.IH [OF this, of "m(key x \<mapsto> val x)"] show ?thesis by auto
  next
    case False
    with Cons.prems have kx: "key x = k" by auto
    have same: "fold (\<lambda>x m. m(key x \<mapsto> val x)) xs m' k = m' k" for m'
      using False by (induction xs arbitrary: m') auto
    have "fold (\<lambda>x m. m(key x \<mapsto> val x)) (x # xs) m k
            = fold (\<lambda>x m. m(key x \<mapsto> val x)) xs (m(key x \<mapsto> val x)) k"
      by (simp only: fold_simps o_apply)
    also have "\<dots> = Some (val x)"
      by (simp only: same) (simp add: kx)
    finally have r: "fold (\<lambda>x m. m(key x \<mapsto> val x)) (x # xs) m k = Some (val x)" .
    show ?thesis
      by (rule bexI [of _ x], rule conjI, rule kx, rule r) simp
  qed
qed

lemma adjacent_pairs_nth:
  "i + 1 < length stages \<Longrightarrow> (stages ! i, stages ! (i + 1)) \<in> set (adjacent_pairs stages)"
  by (auto simp: adjacent_pairs_def image_iff intro!: bexI [of _ i])

lemma progression_entry:
  assumes "i + 1 < length stages"
  shows "\<exists>e. pr_progression (computeProgression stages deals) (pkey (stages ! i) (stages ! (i + 1)))
               = Some e
             \<and> e_progressed e =
                 progressed_count_spec stages deals (pkey (stages ! i) (stages ! (i + 1)))"
proof -
  let ?st = "progression_counts stages deals"
  let ?k = "pkey (stages ! i) (stages ! (i + 1))"
  have fold_eq: "(\<lambda>(s, s1) m. assign (pkey s s1) (advance_edge ?st s s1) m)
      = (\<lambda>x m. m((case x of (s, s1) \<Rightarrow> pkey s s1) \<mapsto>
                  (case x of (s, s1) \<Rightarrow> advance_edge ?st s s1)))"
    by (auto simp: fun_eq_iff)
  have "\<exists>x\<in>set (adjacent_pairs stages). (case x of (s, s1) \<Rightarrow> pkey s s1) = ?k"
    using adjacent_pairs_nth [OF assms] by (intro bexI [of _ "(stages ! i, stages ! (i + 1))"]) simp_all
  from fold_upd_key_total [OF this, of "\<lambda>x. case x of (s, s1) \<Rightarrow> advance_edge ?st s s1" Map.empty]
  obtain x where x: "(case x of (s, s1) \<Rightarrow> pkey s s1) = ?k"
    "fold (\<lambda>x m. m((case x of (s, s1) \<Rightarrow> pkey s s1) \<mapsto>
                  (case x of (s, s1) \<Rightarrow> advance_edge ?st s s1)))
       (adjacent_pairs stages) Map.empty ?k
     = Some (case x of (s, s1) \<Rightarrow> advance_edge ?st s s1)"
    by blast
  obtain s s1 where p: "x = (s, s1)" by (cases x)
  have k: "pkey s s1 = ?k" using x(1) by (simp add: p)
  have pr: "pr_progression (computeProgression stages deals)
      = fold (\<lambda>(s, s1) m. assign (pkey s s1) (advance_edge ?st s s1) m)
          (adjacent_pairs stages) Map.empty"
    by (simp add: computeProgression_def Let_def)
  have "pr_progression (computeProgression stages deals) ?k
      = Some (case x of (s, s1) \<Rightarrow> advance_edge ?st s s1)"
    by (simp only: pr fold_eq x(2))
  then have e: "pr_progression (computeProgression stages deals) ?k = Some (advance_edge ?st s s1)"
    by (simp only: p prod.case)
  have "e_progressed (advance_edge ?st s s1) = progressed_count_spec stages deals ?k"
    by (simp add: advance_edge_def Let_def k progression_counts_pc progressed_count_spec_eq)
  with e show ?thesis by blast
qed

lemma length_filter_index: "length (filter (\<lambda>j. j = i \<and> c) [0..<n]) = (if i < n \<and> c then 1 else 0)"
  by (induction n) auto

lemma sum_list_indicator:
  "sum_list (map (\<lambda>d. if P d then 1 else 0) ds) = length (filter P ds)"
  by (induction ds) auto

lemma progressed_count_unique_key:
  assumes "i + 1 < length stages"
    and "\<forall>j. j + 1 < length stages \<longrightarrow>
           stages ! j @ ''->'' @ stages ! (j + 1) = stages ! i @ ''->'' @ stages ! (i + 1) \<longrightarrow> j = i"
  shows "progressed_count_spec stages deals (stages ! i @ ''->'' @ stages ! (i + 1))
           = length (filter (\<lambda>d. progressed_spec d (stages ! i) (stages ! (i + 1))) deals)"
proof -
  have "filter (\<lambda>j. stages ! j @ ''->'' @ stages ! (j + 1) = stages ! i @ ''->'' @ stages ! (i + 1)
                  \<and> progressed_spec d (stages ! j) (stages ! (j + 1))) [0..<length stages - 1]
      = filter (\<lambda>j. j = i \<and> progressed_spec d (stages ! i) (stages ! (i + 1)))
          [0..<length stages - 1]" for d
  proof (rule filter_cong [OF refl])
    fix j assume "j \<in> set [0..<length stages - 1]"
    then have "j + 1 < length stages" by auto
    with assms(2) show "(stages ! j @ ''->'' @ stages ! (j + 1) = stages ! i @ ''->'' @ stages ! (i + 1)
                  \<and> progressed_spec d (stages ! j) (stages ! (j + 1)))
      = (j = i \<and> progressed_spec d (stages ! i) (stages ! (i + 1)))"
      by auto
  qed
  then show ?thesis
    using assms(1)
    by (simp add: progressed_count_spec_def length_filter_index sum_list_indicator less_diff_conv)
qed

text \<open>
  C3. The history is sorted ascending by timestamp, entries of equal timestamp keeping
  their order, and on it the test of the source is: both stages occur in the history and
  the earliest timestamp of s1 is strictly greater than the earliest timestamp of s. For
  every adjacent pair of the stages list, computeProgression returns an edge under the
  pair's key whose progressed count has one count for each deal and each adjacent pair of
  that key along which the deal has progressed in this sense; when no other adjacent pair
  has the key, it is the number of deals that have progressed from s to s1.
\<close>

theorem computeProgression_progressed:
  assumes "i + 1 < length stages"
  shows "sorted (map h_timestamp (sorted_hist d))
   \<and> filter (\<lambda>h. h_timestamp h = t) (sorted_hist d) = filter (\<lambda>h. h_timestamp h = t) (d_history d)
   \<and> (progressed (sorted_hist d) s s1 \<longleftrightarrow>
        reaches s d \<and> reaches s1 d \<and> earliest d s < earliest d s1)
   \<and> (\<exists>e. pr_progression (computeProgression stages deals) (stages ! i @ ''->'' @ stages ! (i + 1))
              = Some e
          \<and> e_progressed e =
              progressed_count_spec stages deals (stages ! i @ ''->'' @ stages ! (i + 1))
          \<and> ((\<forall>j. j + 1 < length stages \<longrightarrow>
                  stages ! j @ ''->'' @ stages ! (j + 1) = stages ! i @ ''->'' @ stages ! (i + 1)
                  \<longrightarrow> j = i)
               \<longrightarrow> e_progressed e =
                     length (filter (\<lambda>d. reaches (stages ! i) d \<and> reaches (stages ! (i + 1)) d \<and>
                                earliest d (stages ! i) < earliest d (stages ! (i + 1))) deals)))"
proof -
  have a: "progressed (sorted_hist d) s s1 \<longleftrightarrow>
          reaches s d \<and> reaches s1 d \<and> earliest d s < earliest d s1"
    by (simp add: progressed_iff_spec progressed_spec_def)
  from progression_entry [OF assms, of deals]
  obtain e where e: "pr_progression (computeProgression stages deals)
        (stages ! i @ ''->'' @ stages ! (i + 1)) = Some e"
    and c: "e_progressed e =
        progressed_count_spec stages deals (stages ! i @ ''->'' @ stages ! (i + 1))"
    by (auto simp: pkey_def)
  have "e_progressed e =
      length (filter (\<lambda>d. reaches (stages ! i) d \<and> reaches (stages ! (i + 1)) d \<and>
                earliest d (stages ! i) < earliest d (stages ! (i + 1))) deals)"
    if "\<forall>j. j + 1 < length stages \<longrightarrow>
          stages ! j @ ''->'' @ stages ! (j + 1) = stages ! i @ ''->'' @ stages ! (i + 1) \<longrightarrow> j = i"
    using progressed_count_unique_key [OF assms that, of deals] c
    by (simp add: progressed_spec_def [abs_def])
  with e c have "\<exists>e. pr_progression (computeProgression stages deals)
        (stages ! i @ ''->'' @ stages ! (i + 1)) = Some e
      \<and> e_progressed e =
          progressed_count_spec stages deals (stages ! i @ ''->'' @ stages ! (i + 1))
      \<and> ((\<forall>j. j + 1 < length stages \<longrightarrow>
              stages ! j @ ''->'' @ stages ! (j + 1) = stages ! i @ ''->'' @ stages ! (i + 1)
              \<longrightarrow> j = i)
           \<longrightarrow> e_progressed e =
                 length (filter (\<lambda>d. reaches (stages ! i) d \<and> reaches (stages ! (i + 1)) d \<and>
                            earliest d (stages ! i) < earliest d (stages ! (i + 1))) deals))"
    by blast
  with a show ?thesis
    by (simp add: sorted_hist_def sort_key_stable)
qed

lemma funnel3_key_unique:
  "\<forall>j. j + 1 < length funnel3 \<longrightarrow>
     funnel3 ! j @ ''->'' @ funnel3 ! (j + 1) = funnel3 ! 0 @ ''->'' @ funnel3 ! (0 + 1) \<longrightarrow> j = 0"
proof (intro allI impI)
  fix j assume "j + 1 < length funnel3"
    and k: "funnel3 ! j @ ''->'' @ funnel3 ! (j + 1) = funnel3 ! 0 @ ''->'' @ funnel3 ! (0 + 1)"
  then have "j = 0 \<or> j = 1" by (auto simp: funnel3_def)
  with k show "j = 0" by (auto simp: funnel3_def)
qed

theorem computeProgression_progressed_witness:
  "pr_progression (computeProgression funnel3 [deal_full, deal_inbox, deal_nohist]) ''inbox->sequenced''
     = Some \<lparr>from_reached = Counted 2, e_progressed = 1, p_advance = Finite (1 / 2)\<rparr>
   \<and> progressed_count_spec funnel3 [deal_full, deal_inbox, deal_nohist] ''inbox->sequenced'' = 1
   \<and> length (filter (\<lambda>d. reaches ''inbox'' d \<and> reaches ''sequenced'' d \<and>
                earliest d ''inbox'' < earliest d ''sequenced'') [deal_full, deal_inbox, deal_nohist]) = 1"
proof -
  let ?ds = "[deal_full, deal_inbox, deal_nohist]"
  have l: "0 + 1 < length funnel3" by (simp add: funnel3_def)
  have v: "pr_progression (computeProgression funnel3 ?ds) ''inbox->sequenced''
     = Some \<lparr>from_reached = Counted 2, e_progressed = 1, p_advance = Finite (1 / 2)\<rparr>"
    by code_simp
  have n: "funnel3 ! 0 = ''inbox''" "funnel3 ! (0 + 1) = ''sequenced''"
    by (simp_all add: funnel3_def)
  have key: "funnel3 ! 0 @ ''->'' @ funnel3 ! (0 + 1) = ''inbox->sequenced''"
    by (simp add: funnel3_def)
  from computeProgression_progressed [OF l, of deal_full 0 "''inbox''" "''sequenced''" ?ds]
  obtain e where e1: "pr_progression (computeProgression funnel3 ?ds)
        (funnel3 ! 0 @ ''->'' @ funnel3 ! (0 + 1)) = Some e"
    and e2: "e_progressed e =
        progressed_count_spec funnel3 ?ds (funnel3 ! 0 @ ''->'' @ funnel3 ! (0 + 1))"
    and e3: "(\<forall>j. j + 1 < length funnel3 \<longrightarrow>
          funnel3 ! j @ ''->'' @ funnel3 ! (j + 1) = funnel3 ! 0 @ ''->'' @ funnel3 ! (0 + 1) \<longrightarrow> j = 0)
        \<longrightarrow> e_progressed e =
            length (filter (\<lambda>d. reaches (funnel3 ! 0) d \<and> reaches (funnel3 ! (0 + 1)) d \<and>
                      earliest d (funnel3 ! 0) < earliest d (funnel3 ! (0 + 1))) ?ds)"
    by blast
  from e1 v have e: "e = \<lparr>from_reached = Counted 2, e_progressed = 1, p_advance = Finite (1 / 2)\<rparr>"
    by (simp only: key option.inject)
  then have p: "e_progressed e = 1" by simp
  from e2 p have c: "progressed_count_spec funnel3 ?ds ''inbox->sequenced'' = 1"
    by (simp only: key)
  from e3 funnel3_key_unique p
  have "length (filter (\<lambda>d. reaches (funnel3 ! 0) d \<and> reaches (funnel3 ! (0 + 1)) d \<and>
                      earliest d (funnel3 ! 0) < earliest d (funnel3 ! (0 + 1))) ?ds) = 1"
    by (simp only:)
  then have f: "length (filter (\<lambda>d. reaches ''inbox'' d \<and> reaches ''sequenced'' d \<and>
                earliest d ''inbox'' < earliest d ''sequenced'') ?ds) = 1"
    by (simp only: n)
  from v c f show ?thesis by (intro conjI)
qed

section \<open>The cohort\<close>

lemma yields_iff_spec: "yields start end pipeline d \<longleftrightarrow> in_cohort_spec start end pipeline d"
  by (auto simp: yields_def in_cohort_spec_def in_window_def split: option.splits)

lemma dealsCohort_from:
  "walk_ends n getPage after \<Longrightarrow>
   dealsCohort n getPage start end pipeline after =
     Some (filter (in_cohort_spec start end pipeline)
             (concat (map results (upstream_pages n getPage after))))"
proof (induction n arbitrary: after)
  case 0
  then show ?case by simp
next
  case (Suc n)
  show ?case
  proof (cases "truthy (next_after (getPage after))")
    case False
    then show ?thesis by (simp add: Let_def yields_iff_spec [abs_def])
  next
    case True
    with Suc.prems have "walk_ends n getPage (next_after (getPage after))" by simp
    from Suc.IH [OF this] True show ?thesis
      by (simp add: Let_def yields_iff_spec [abs_def])
  qed
qed

text \<open>
  C7. When the page walk ends, the cohort is exactly the deals of the pages walked whose
  creation time lies in the closed interval from start to end and, when a pipeline
  identifier is supplied, whose pipeline equals it, in upstream order.
\<close>

theorem dealsCohort_exact:
  assumes "walk_ends n getPage None"
  shows "dealsCohort n getPage start end pipeline None =
           Some (filter (in_cohort_spec start end pipeline)
                   (concat (map results (upstream_pages n getPage None))))"
  using assms by (rule dealsCohort_from)

theorem dealsCohort_exact_witness:
  "walk_ends 2 sample_store None
   \<and> dealsCohort 2 sample_store 5 20 (Some ''default'') None
       = Some [deal_at 5 ''default'', deal_at 20 ''default'']
   \<and> concat (map results (upstream_pages 2 sample_store None))
       = [deal_at 5 ''default'', deal_at 50 ''default'', deal_at 4 ''default'',
          deal_at 10 ''other'', deal_at 20 ''default'']"
proof -
  have w: "walk_ends 2 sample_store None"
    by (simp add: numeral_2_eq_2 sample_store_def truthy_def)
  have u: "concat (map results (upstream_pages 2 sample_store None))
       = [deal_at 5 ''default'', deal_at 50 ''default'', deal_at 4 ''default'',
          deal_at 10 ''other'', deal_at 20 ''default'']"
    by (simp add: numeral_2_eq_2 sample_store_def truthy_def)
  have f: "filter (in_cohort_spec 5 20 (Some ''default''))
             [deal_at 5 ''default'', deal_at 50 ''default'', deal_at 4 ''default'',
              deal_at 10 ''other'', deal_at 20 ''default'']
           = [deal_at 5 ''default'', deal_at 20 ''default'']"
    by (simp add: in_cohort_spec_def deal_at_def truthy_def)
  show ?thesis
    using dealsCohort_exact [OF w, of 5 20 "Some ''default''"] w u f by simp
qed


section \<open>The average won amount\<close>

lemma computeStats_avgWon:
  "avgWon (computeStats ds stages w None) =
     (if won_deals w ds = [] then 0
      else fdiv (foldl fadd 0 (map amt (filter (\<lambda>d. 0 < amt d) (won_deals w ds))))
             (of_nat (length (won_deals w ds))))"
proof -
  have "filter (\<lambda>d. 0 < amt d) (won_deals w ds)
          = filter (\<lambda>d. d_history d \<noteq> [] \<and> isWon w d \<and> 0 < amt d) ds"
    by (simp add: won_deals_def conj_commute conj_left_commute)
  then show ?thesis
    by (simp add: computeStats_def Let_def stats_counts_def fold_stats_wonCount
        fold_stats_wonSum won_deals_def)
qed

lemma computeStats_wonAfter:
  "get0 (wonAfter (computeStats ds stages w ov)) s =
     length (filter (\<lambda>d. reaches s d \<and> isWon w d) ds)"
  by (simp add: computeStats_def Let_def stats_counts_wonAfter)

lemma isWon_iff:
  "isWon w d \<longleftrightarrow> d_is_closed_won d = JString ''true'' \<or> (\<exists>x. w = Some x \<and> reaches x d)"
  by (cases w) (simp_all add: isWon_def reaches_ever)

text \<open>
  C1, as the code has it. Without an override, avgWon is the sum of the positive amounts
  of the won deals divided by the number of all won deals, those of zero or blank amount
  included, and 0 when no deal is won; the amount plays no part in wonAfter, which counts
  every won deal that reached the stage.
\<close>

theorem avgWon_over_all_won_deals:
  "avgWon (computeStats ds stages w None) =
     (if won_deals w ds = [] then 0
      else fdiv (foldl fadd 0 (map amt (filter (\<lambda>d. 0 < amt d) (won_deals w ds))))
             (of_nat (length (won_deals w ds))))
   \<and> get0 (wonAfter (computeStats ds stages w ov)) s = length (filter (reaches s) (won_deals w ds))"
proof -
  have "filter (reaches s) (won_deals w ds) = filter (\<lambda>d. reaches s d \<and> isWon w d) ds"
    unfolding won_deals_def filter_filter
    by (rule filter_cong) (auto dest: reaches_nonempty)
  then show ?thesis
    by (simp add: computeStats_avgWon computeStats_wonAfter)
qed

theorem avgWon_over_all_won_deals_witness:
  "avgWon (computeStats [deal_won100, deal_won_blank] funnel3 (Some ''closedwon'') None) = 50
   \<and> length (won_deals (Some ''closedwon'') [deal_won100, deal_won_blank]) = 2
   \<and> get0 (wonAfter (computeStats [deal_won100, deal_won_blank] funnel3 (Some ''closedwon'') None))
        ''inbox'' = 2"
proof -
  have a: "won_deals (Some ''closedwon'') [deal_won100, deal_won_blank] = [deal_won100, deal_won_blank]"
    by code_simp
  have b: "fdiv (foldl fadd 0 (map amt (filter (\<lambda>d. 0 < amt d) [deal_won100, deal_won_blank]))) 2 = 50"
    by code_simp
  have c: "filter (reaches ''inbox'') [deal_won100, deal_won_blank] = [deal_won100, deal_won_blank]"
    by (simp add: reaches_def deal_won100_def deal_won_blank_def mk_deal_def he_def)
  show ?thesis
    using avgWon_over_all_won_deals [of "[deal_won100, deal_won_blank]" funnel3
        "Some ''closedwon''" None "''inbox''"] a b c
    by simp
qed

theorem avgWon_positive_only_counterexample:
  "avgWon (computeStats [deal_won100, deal_won_blank] funnel3 (Some ''closedwon'') None) = 50
   \<and> avgWon_spec (Some ''closedwon'') [deal_won100, deal_won_blank] = 100"
  by code_simp

text \<open>
  C2, as the code has it. A deal is classified as won exactly when its stage history is
  not empty and its hs_is_closed_won property is the string 'true' or its history contains
  wonStage: these are the deals counted in wonAfter, for each stage they reached, and in
  the number of won deals that divides the average.
\<close>

theorem won_classification:
  "get0 (wonAfter (computeStats ds stages w ov)) s =
     length (filter (\<lambda>d. reaches s d \<and>
        (d_is_closed_won d = JString ''true'' \<or> (\<exists>x. w = Some x \<and> reaches x d))) ds)
   \<and> ss_wonCount (stats_counts w ds) =
     length (filter (\<lambda>d. d_history d \<noteq> [] \<and>
        (d_is_closed_won d = JString ''true'' \<or> (\<exists>x. w = Some x \<and> reaches x d))) ds)"
  by (simp add: computeStats_wonAfter stats_counts_def fold_stats_wonCount isWon_iff)

theorem won_classification_witness:
  "get0 (wonAfter (computeStats [deal_full, deal_inbox, deal_won_blank] funnel3 (Some ''closedwon'') None))
     ''inbox'' = 2
   \<and> ss_wonCount (stats_counts (Some ''closedwon'') [deal_full, deal_inbox, deal_won_blank]) = 2"
proof -
  have "ss_wonCount (stats_counts (Some ''closedwon'') [deal_full, deal_inbox, deal_won_blank]) = 2"
    by code_simp
  moreover have "get0 (wonAfter (computeStats [deal_full, deal_inbox, deal_won_blank] funnel3
      (Some ''closedwon'') None)) ''inbox'' = 2"
    by code_simp
  ultimately show ?thesis
    using won_classification [of "[deal_full, deal_inbox, deal_won_blank]" funnel3
        "Some ''closedwon''" None "''inbox''"]
    by simp
qed

theorem won_flag_representation_counterexample:
  "isWon_spec (Some ''closedwon'') deal_boolflag
   \<and> reached (computeStats [deal_boolflag] funnel3 (Some ''closedwon'') None) ''inbox'' = Some 1
   \<and> wonAfter (computeStats [deal_boolflag] funnel3 (Some ''closedwon'') None) ''inbox'' = None
   \<and> avgWon (computeStats [deal_boolflag] funnel3 (Some ''closedwon'') None) = 0
   \<and> isWon_spec (Some ''closedwon'') deal_nohist
   \<and> avgWon (computeStats [deal_nohist] funnel3 (Some ''closedwon'') None) = 0"
  by code_simp


section \<open>Rounding keeps the unit interval\<close>

lemma pow2_pos: "0 < pow2 e"
  by (simp add: pow2_def)

lemma pow2_neg: "e \<le> 0 \<Longrightarrow> pow2 e = 1 / 2 ^ nat (- e)"
  by (cases "e = 0") (simp_all add: pow2_def)

lemma round_half_even_nonneg: "0 \<le> y \<Longrightarrow> 0 \<le> round_half_even y"
  by (simp add: round_half_even_def Let_def)

lemma round_half_even_le:
  assumes "y \<le> of_int M"
  shows "round_half_even y \<le> M"
proof (cases "y = of_int M")
  case True
  then show ?thesis by (simp add: round_half_even_def)
next
  case False
  with assms have "y < of_int M" by simp
  then have "\<lfloor>y\<rfloor> < M" by (simp add: floor_less_iff)
  then show ?thesis by (simp add: round_half_even_def Let_def)
qed

lemma round_half_even_of_int [simp]: "round_half_even (of_int z) = z"
  by (simp add: round_half_even_def)

lemma bitlen_mono: "x \<le> y \<Longrightarrow> bitlen x \<le> bitlen y"
  by (simp add: bitlen_def floorlog_mono)

lemma fl_pos_nonneg:
  assumes "0 < x"
  shows "0 \<le> fl_pos x"
proof -
  have "0 \<le> of_int (round_half_even (x / pow2 e)) * pow2 e" for e
  proof -
    have "0 \<le> x / pow2 e"
      using assms pow2_pos [of e] by simp
    then have "0 \<le> round_half_even (x / pow2 e)"
      by (rule round_half_even_nonneg)
    then show ?thesis
      using pow2_pos [of e] by simp
  qed
  then show ?thesis
    by (simp add: fl_pos_def Let_def split: prod.splits)
qed

lemma fl_pos_le_1:
  assumes "0 < x" and "x \<le> 1"
  shows "fl_pos x \<le> 1"
proof -
  obtain p q where pq: "quotient_of x = (p, q)" by (cases "quotient_of x")
  then have q: "0 < q" and x: "x = of_int p / of_int q"
    by (auto dest: quotient_of_denom_pos quotient_of_div)
  from assms(2) q have "p \<le> q"
    by (simp add: x pos_divide_le_eq)
  then have k: "bitlen p - bitlen q \<le> 0"
    using bitlen_mono [of p q] by simp
  define e where "e = (if pow2 (bitlen p - bitlen q) \<le> x then bitlen p - bitlen q
                       else bitlen p - bitlen q - 1) - 52"
  have e: "e \<le> 0" using k by (simp add: e_def)
  define N where "N = nat (- e)"
  have pe: "pow2 e = 1 / 2 ^ N" using e by (simp add: pow2_neg N_def)
  have "x / pow2 e = x * 2 ^ N" by (simp add: pe)
  also have "\<dots> \<le> of_int (2 ^ N)" using assms(2) by simp
  finally have "round_half_even (x / pow2 e) \<le> 2 ^ N"
    by (rule round_half_even_le)
  then have "(of_int (round_half_even (x / pow2 e)) :: rat) \<le> 2 ^ N"
    by (metis of_int_le_iff of_int_numeral of_int_power)
  then have "of_int (round_half_even (x / pow2 e)) * pow2 e \<le> 1"
    by (simp add: pe pos_divide_le_eq)
  moreover have "fl_pos x = of_int (round_half_even (x / pow2 e)) * pow2 e"
    by (simp add: fl_pos_def pq e_def Let_def)
  ultimately show ?thesis by simp
qed

lemma fl_unit: "0 \<le> x \<Longrightarrow> x \<le> 1 \<Longrightarrow> 0 \<le> fl x \<and> fl x \<le> 1"
  by (auto simp: fl_def fl_pos_nonneg fl_pos_le_1)

lemma fdiv_unit:
  assumes "w \<le> r" and "r \<noteq> 0"
  shows "0 \<le> fdiv (of_nat w) (of_nat r) \<and> fdiv (of_nat w) (of_nat r) \<le> 1"
  unfolding fdiv_def
  by (rule fl_unit) (use assms in \<open>simp_all add: pos_divide_le_eq\<close>)


section \<open>Sums of whole amounts are exact\<close>

lemma fl_of_int_exact:
  assumes "0 \<le> n" and "n < 2 ^ 53"
  shows "fl (of_int n) = of_int n"
proof (cases "n = 0")
  case True
  then show ?thesis by (simp add: fl_def)
next
  case False
  with assms have pos: "0 < n" by simp
  have "bitlen n \<le> 53"
    using assms(2) by (simp add: bitlen_le_iff_power)
  moreover have "bitlen 1 = 1"
    by (simp add: bitlen_def compute_floorlog)
  ultimately have k: "bitlen n - bitlen 1 \<le> 52" by simp
  define e where "e = (if pow2 (bitlen n - bitlen 1) \<le> of_int n then bitlen n - bitlen 1
                       else bitlen n - bitlen 1 - 1) - 52"
  have e: "e \<le> 0" using k by (simp add: e_def)
  define N where "N = nat (- e)"
  have pe: "pow2 e = 1 / 2 ^ N" using e by (simp add: pow2_neg N_def)
  have "of_int n / pow2 e = (of_int (n * 2 ^ N) :: rat)" by (simp add: pe)
  then have "round_half_even (of_int n / pow2 e) = n * 2 ^ N"
    by (simp only: round_half_even_of_int)
  then have "of_int (round_half_even (of_int n / pow2 e)) * pow2 e = (of_int n :: rat)"
    by (simp add: pe)
  moreover have "fl_pos (of_int n) = of_int (round_half_even (of_int n / pow2 e)) * pow2 e"
    by (simp add: fl_pos_def quotient_of_int e_def Let_def)
  ultimately show ?thesis
    using pos by (simp add: fl_def)
qed

lemma foldl_fadd_exact:
  assumes "\<forall>x\<in>set xs. x \<in> \<int> \<and> 0 \<le> x"
    and "acc \<in> \<int>" and "0 \<le> acc" and "acc + sum_list xs < 2 ^ 53"
  shows "foldl fadd acc xs = acc + sum_list xs"
  using assms
proof (induction xs arbitrary: acc)
  case Nil
  then show ?case by simp
next
  case (Cons x xs)
  from Cons.prems obtain m n where m: "acc = of_int m" and n: "x = of_int n"
    by (auto elim!: Ints_cases)
  from Cons.prems have nn: "0 \<le> m" "0 \<le> n"
    by (simp_all add: m n)
  have "0 \<le> sum_list xs"
    using Cons.prems(1) by (intro sum_list_nonneg) simp
  with Cons.prems(4) have "acc + x < 2 ^ 53" by simp
  then have "m + n < 2 ^ 53"
    unfolding m n by (metis of_int_add of_int_less_iff of_int_numeral of_int_power)
  then have ex: "fadd acc x = acc + x"
    using fl_of_int_exact [of "m + n"] nn by (simp add: fadd_def m n)
  have "foldl fadd (acc + x) xs = (acc + x) + sum_list xs"
    by (rule Cons.IH) (use Cons.prems nn in \<open>simp_all add: m n add.assoc\<close>)
  then show ?case by (simp add: ex add.assoc)
qed

lemma sum_list_filter_le:
  fixes f :: "'a \<Rightarrow> rat"
  shows "sum_list (map f (filter (\<lambda>d. P d \<and> 0 < f d) ds)) \<le> sum_list (map f (filter (\<lambda>d. 0 < f d) ds))"
  by (induction ds) auto

lemma perm_sum_list_rat:
  fixes f :: "'a \<Rightarrow> rat"
  shows "mset ds = mset ds' \<Longrightarrow> sum_list (map f ds) = sum_list (map f ds')"
  by (metis mset_map sum_mset_sum_list)

lemma wonSum_exact:
  assumes "\<forall>d\<in>set ds. amt d \<in> \<int>"
    and "sum_list (map amt (filter (\<lambda>d. 0 < amt d) ds)) < 2 ^ 53"
  shows "ss_wonSum (stats_counts w ds) =
           sum_list (map amt (filter (\<lambda>d. d_history d \<noteq> [] \<and> isWon w d \<and> 0 < amt d) ds))"
proof -
  let ?won = "filter (\<lambda>d. (d_history d \<noteq> [] \<and> isWon w d) \<and> 0 < amt d) ds"
  have "sum_list (map amt ?won) \<le> sum_list (map amt (filter (\<lambda>d. 0 < amt d) ds))"
    by (rule sum_list_filter_le)
  with assms(2) have "0 + sum_list (map amt ?won) < 2 ^ 53" by simp
  moreover have "\<forall>x\<in>set (map amt ?won). x \<in> \<int> \<and> 0 \<le> x"
    using assms(1) by auto
  ultimately have "foldl fadd 0 (map amt ?won) = 0 + sum_list (map amt ?won)"
    by (intro foldl_fadd_exact) simp_all
  then show ?thesis
    by (simp add: stats_counts_def fold_stats_wonSum)
qed

lemma wonSum_perm_whole_amounts:
  assumes "mset ds = mset ds'"
    and "\<forall>d\<in>set ds. amt d \<in> \<int>"
    and "sum_list (map amt (filter (\<lambda>d. 0 < amt d) ds)) < 2 ^ 53"
  shows "ss_wonSum (stats_counts w ds) = ss_wonSum (stats_counts w ds')"
proof -
  have s: "set ds' = set ds" using assms(1) by (metis set_mset_mset)
  have f: "mset (filter P ds) = mset (filter P ds')" for P
    using assms(1) by simp
  have "sum_list (map amt (filter (\<lambda>d. 0 < amt d) ds'))
          = sum_list (map amt (filter (\<lambda>d. 0 < amt d) ds))"
    by (rule perm_sum_list_rat) (simp add: assms(1))
  with assms have "ss_wonSum (stats_counts w ds') =
           sum_list (map amt (filter (\<lambda>d. d_history d \<noteq> [] \<and> isWon w d \<and> 0 < amt d) ds'))"
    by (intro wonSum_exact) (simp_all add: s)
  moreover have "ss_wonSum (stats_counts w ds) =
           sum_list (map amt (filter (\<lambda>d. d_history d \<noteq> [] \<and> isWon w d \<and> 0 < amt d) ds))"
    using assms by (intro wonSum_exact)
  ultimately show ?thesis
    using perm_sum_list_rat [OF f, of amt] by simp
qed


section \<open>Permuting the deals\<close>

lemma perm_length_filter:
  "mset ds = mset ds' \<Longrightarrow> length (filter P ds) = length (filter P ds')"
  by (metis mset_filter size_mset)

lemma perm_filter_Nil:
  "mset ds = mset ds' \<Longrightarrow> filter P ds = [] \<longleftrightarrow> filter P ds' = []"
  using perm_length_filter [of ds ds' P] by (metis length_0_conv)

lemma perm_sum_list:
  fixes f :: "'a \<Rightarrow> nat"
  shows "mset ds = mset ds' \<Longrightarrow> sum_list (map f ds) = sum_list (map f ds')"
  by (metis mset_map sum_mset_sum_list)

lemma progression_counts_perm:
  assumes "mset ds = mset ds'"
  shows "progression_counts stages ds = progression_counts stages ds'"
proof (rule prog_state.equality)
  show "progressedCounts (progression_counts stages ds) = progressedCounts (progression_counts stages ds')"
    by (rule ext)
       (simp add: progression_counts_def fold_progression_pc perm_sum_list [OF assms])
  show "reachedCounts (progression_counts stages ds) = reachedCounts (progression_counts stages ds')"
    by (rule ext)
       (simp add: progression_counts_rc perm_length_filter [OF assms])
qed simp

lemma computeProgression_perm:
  "mset ds = mset ds' \<Longrightarrow> computeProgression stages ds = computeProgression stages ds'"
  by (simp add: computeProgression_def progression_counts_perm [of ds ds'])

lemma stats_counts_perm:
  assumes "mset ds = mset ds'"
  shows "ss_reached (stats_counts w ds) = ss_reached (stats_counts w ds')"
    and "ss_wonAfter (stats_counts w ds) = ss_wonAfter (stats_counts w ds')"
    and "ss_wonCount (stats_counts w ds) = ss_wonCount (stats_counts w ds')"
proof -
  show "ss_reached (stats_counts w ds) = ss_reached (stats_counts w ds')"
    by (rule ext)
       (simp add: stats_counts_def fold_stats_reached perm_length_filter [OF assms]
          perm_filter_Nil [OF assms])
  show "ss_wonAfter (stats_counts w ds) = ss_wonAfter (stats_counts w ds')"
    by (rule ext)
       (simp add: stats_counts_def fold_stats_wonAfter perm_length_filter [OF assms]
          perm_filter_Nil [OF assms])
  show "ss_wonCount (stats_counts w ds) = ss_wonCount (stats_counts w ds')"
    by (simp add: stats_counts_def fold_stats_wonCount perm_length_filter [OF assms])
qed

lemma computeStats_completion:
  "completion (computeStats ds stages w ov) s =
     (if s \<in> set stages \<and> s \<noteq> ''__proto__''
      then Some (completion_of (stats_counts w ds) (avgWon (computeStats ds stages w ov)) s)
      else None)"
  by (simp add: computeStats_def Let_def fold_assign_apply)

lemma completion_of_fields:
  "c_reached (completion_of st avg s) = get0 (ss_reached st) s"
  "c_wonAfter (completion_of st avg s) = get0 (ss_wonAfter st) s"
  "p_win (completion_of st avg s) =
     (if get0 (ss_reached st) s \<noteq> 0
      then fdiv (of_nat (get0 (ss_wonAfter st) s)) (of_nat (get0 (ss_reached st) s)) else 0)"
  by (simp_all add: completion_of_def Let_def)

lemma stats_state_perm:
  assumes "mset ds = mset ds'"
    and "ss_wonSum (stats_counts w ds) = ss_wonSum (stats_counts w ds')"
  shows "stats_counts w ds = stats_counts w ds'"
  by (rule stats_state.equality) (simp_all add: stats_counts_perm [OF assms(1)] assms(2))

text \<open>
  C8, as the code has it. On a permutation of the deals, reached, wonAfter, progression
  and stageLoss are the same maps, and every completion record has the same reached,
  wonAfter and p_win. The whole output is the same when an override is supplied, or when
  the running sum of the won amounts, a floating-point sum taken in iteration order,
  comes out the same; it does so when every amount is a whole number and the positive
  amounts add up to less than \<open>2^53\<close>.
\<close>

theorem computeStats_permutation:
  assumes "mset ds = mset ds'"
  shows "reached (computeStats ds stages w ov) = reached (computeStats ds' stages w ov)
   \<and> wonAfter (computeStats ds stages w ov) = wonAfter (computeStats ds' stages w ov)
   \<and> progression (computeStats ds stages w ov) = progression (computeStats ds' stages w ov)
   \<and> stageLoss (computeStats ds stages w ov) = stageLoss (computeStats ds' stages w ov)
   \<and> map_option c_reached (completion (computeStats ds stages w ov) s)
       = map_option c_reached (completion (computeStats ds' stages w ov) s)
   \<and> map_option c_wonAfter (completion (computeStats ds stages w ov) s)
       = map_option c_wonAfter (completion (computeStats ds' stages w ov) s)
   \<and> map_option p_win (completion (computeStats ds stages w ov) s)
       = map_option p_win (completion (computeStats ds' stages w ov) s)
   \<and> (ov \<noteq> None \<or> ss_wonSum (stats_counts w ds) = ss_wonSum (stats_counts w ds')
        \<or> ((\<forall>d\<in>set ds. amt d \<in> \<int>) \<and> sum_list (map amt (filter (\<lambda>d. 0 < amt d) ds)) < 2 ^ 53)
      \<longrightarrow> computeStats ds stages w ov = computeStats ds' stages w ov)"
proof -
  note sc = stats_counts_perm [OF assms, of w]
  have maps: "reached (computeStats ds stages w ov) = reached (computeStats ds' stages w ov)"
    "wonAfter (computeStats ds stages w ov) = wonAfter (computeStats ds' stages w ov)"
    "progression (computeStats ds stages w ov) = progression (computeStats ds' stages w ov)"
    "stageLoss (computeStats ds stages w ov) = stageLoss (computeStats ds' stages w ov)"
    by (simp_all add: computeStats_def Let_def sc computeProgression_perm [OF assms])
  have fields: "map_option c_reached (completion (computeStats ds stages w ov) s)
       = map_option c_reached (completion (computeStats ds' stages w ov) s)"
    "map_option c_wonAfter (completion (computeStats ds stages w ov) s)
       = map_option c_wonAfter (completion (computeStats ds' stages w ov) s)"
    "map_option p_win (completion (computeStats ds stages w ov) s)
       = map_option p_win (completion (computeStats ds' stages w ov) s)"
    by (simp_all add: computeStats_completion completion_of_fields sc)
  have whole: "computeStats ds stages w ov = computeStats ds' stages w ov"
    if "ov \<noteq> None \<or> ss_wonSum (stats_counts w ds) = ss_wonSum (stats_counts w ds')
        \<or> ((\<forall>d\<in>set ds. amt d \<in> \<int>) \<and> sum_list (map amt (filter (\<lambda>d. 0 < amt d) ds)) < 2 ^ 53)"
  proof (cases ov)
    case (Some v)
    have "completion_of (stats_counts w ds) v = completion_of (stats_counts w ds') v"
      by (rule ext) (simp add: completion_of_def sc)
    then show ?thesis
      by (simp add: computeStats_def Let_def Some sc computeProgression_perm [OF assms])
  next
    case None
    with that have "ss_wonSum (stats_counts w ds) = ss_wonSum (stats_counts w ds')"
      using wonSum_perm_whole_amounts [OF assms, of w] by blast
    then have "stats_counts w ds = stats_counts w ds'"
      by (rule stats_state_perm [OF assms])
    then show ?thesis
      by (simp add: computeStats_def Let_def computeProgression_perm [OF assms])
  qed
  from maps fields whole show ?thesis by blast
qed

theorem computeStats_permutation_witness:
  "mset [deal_full, deal_inbox, deal_won100] = mset [deal_won100, deal_full, deal_inbox]
   \<and> computeStats [deal_full, deal_inbox, deal_won100] funnel3 (Some ''closedwon'') (Some 500)
       = computeStats [deal_won100, deal_full, deal_inbox] funnel3 (Some ''closedwon'') (Some 500)
   \<and> amt deal_full = 1000 \<and> amt deal_inbox = 0 \<and> amt deal_won100 = 100
   \<and> sum_list (map amt (filter (\<lambda>d. 0 < amt d) [deal_full, deal_inbox, deal_won100])) < 2 ^ 53
   \<and> computeStats [deal_full, deal_inbox, deal_won100] funnel3 (Some ''closedwon'') None
       = computeStats [deal_won100, deal_full, deal_inbox] funnel3 (Some ''closedwon'') None"
proof -
  have m: "mset [deal_full, deal_inbox, deal_won100] = mset [deal_won100, deal_full, deal_inbox]"
    by (simp add: add_mset_commute)
  have v: "amt deal_full = 1000" "amt deal_inbox = 0" "amt deal_won100 = 100"
    by code_simp+
  have a: "\<forall>d\<in>set [deal_full, deal_inbox, deal_won100]. amt d \<in> \<int>"
    by (simp add: v)
  have b: "sum_list (map amt (filter (\<lambda>d. 0 < amt d) [deal_full, deal_inbox, deal_won100])) < 2 ^ 53"
    by (simp add: v)
  show ?thesis
    using computeStats_permutation [OF m, of funnel3 "Some ''closedwon''" "Some 500"]
      computeStats_permutation [OF m, of funnel3 "Some ''closedwon''" None] m a b v
    by blast
qed

theorem computeStats_permutation_counterexample:
  "mset [deal_a, deal_b, deal_c] = mset [deal_b, deal_c, deal_a]
   \<and> avgWon (computeStats [deal_a, deal_b, deal_c] funnel3 (Some ''closedwon'') None)
       = 916241364619537 / 549755813888
   \<and> avgWon (computeStats [deal_b, deal_c, deal_a] funnel3 (Some ''closedwon'') None)
       = 7329930916956297 / 4398046511104
   \<and> computeStats [deal_a, deal_b, deal_c] funnel3 (Some ''closedwon'') None
       \<noteq> computeStats [deal_b, deal_c, deal_a] funnel3 (Some ''closedwon'') None"
proof -
  have m: "mset [deal_a, deal_b, deal_c] = mset [deal_b, deal_c, deal_a]"
    by (simp add: add_mset_commute)
  have a: "avgWon (computeStats [deal_a, deal_b, deal_c] funnel3 (Some ''closedwon'') None)
       = 916241364619537 / 549755813888"
    by code_simp
  have b: "avgWon (computeStats [deal_b, deal_c, deal_a] funnel3 (Some ''closedwon'') None)
       = 7329930916956297 / 4398046511104"
    by code_simp
  have "(916241364619537 / 549755813888 :: rat) \<noteq> 7329930916956297 / 4398046511104"
    by simp
  with a b have "computeStats [deal_a, deal_b, deal_c] funnel3 (Some ''closedwon'') None
       \<noteq> computeStats [deal_b, deal_c, deal_a] funnel3 (Some ''closedwon'') None"
    by metis
  with m a b show ?thesis by blast
qed


section \<open>Bounds on the probabilities\<close>

lemma length_filter_conj_le: "length (filter (\<lambda>d. P d \<and> Q d) ds) \<le> length (filter P ds)"
  by (induction ds) auto

lemma fold_upd_key_Some:
  "fold (\<lambda>x m. m(key x \<mapsto> val x)) xs m k = Some e \<Longrightarrow>
     (\<exists>x\<in>set xs. key x = k \<and> val x = e) \<or> m k = Some e"
proof (induction xs arbitrary: m)
  case Nil
  then show ?case by simp
next
  case (Cons x xs)
  from Cons.prems have "fold (\<lambda>x m. m(key x \<mapsto> val x)) xs (m(key x \<mapsto> val x)) k = Some e"
    by (simp only: fold_simps o_apply)
  from Cons.IH [OF this] show ?case
    by (auto split: if_splits)
qed

lemma map_fst_adjacent_pairs: "map fst (adjacent_pairs stages) = butlast stages"
  by (rule nth_equalityI) (simp_all add: adjacent_pairs_def nth_butlast)

lemma count_list_map_fst: "count_list ps (a, b) \<le> count_list (map fst ps) a"
  by (induction ps) auto

lemma count_list_butlast: "count_list (butlast xs) a \<le> count_list xs a"
  by (induction xs) auto

lemma count_adjacent_pairs: "count_list (adjacent_pairs stages) (s, s1) \<le> count_list stages s"
  using count_list_map_fst [of "adjacent_pairs stages" s s1] count_list_butlast [of stages s]
  by (simp add: map_fst_adjacent_pairs)

lemma adjacent_pairs_fst: "(s, s1) \<in> set (adjacent_pairs stages) \<Longrightarrow> s \<in> set stages"
  by (auto simp: adjacent_pairs_def)

lemma progressed_reaches: "progressed (sorted_hist d) s s1 \<Longrightarrow> reaches s d"
  by (simp add: progressed_def first_ts_sorted_hist split: if_splits)

lemma pair_hits_le:
  assumes "inj_on (\<lambda>(a, b). pkey a b) (set (adjacent_pairs stages))"
    and "(s, s1) \<in> set (adjacent_pairs stages)"
  shows "pair_hits stages (pkey s s1) d \<le> (if reaches s d then count_list stages s else 0)"
proof -
  have "filter (\<lambda>(a, b). pkey a b = pkey s s1 \<and> progressed (sorted_hist d) a b) (adjacent_pairs stages)
      = filter (\<lambda>p. (s, s1) = p \<and> progressed (sorted_hist d) s s1) (adjacent_pairs stages)"
  proof (rule filter_cong [OF refl])
    fix p assume p: "p \<in> set (adjacent_pairs stages)"
    obtain a b where ab: "p = (a, b)" by (cases p)
    have "pkey a b = pkey s s1 \<longleftrightarrow> (a, b) = (s, s1)"
      using inj_onD [OF assms(1), of "(a, b)" "(s, s1)"] p assms(2) ab by auto
    then show "(case p of (a, b) \<Rightarrow> pkey a b = pkey s s1 \<and> progressed (sorted_hist d) a b)
      = ((s, s1) = p \<and> progressed (sorted_hist d) s s1)"
      by (auto simp: ab)
  qed
  then have "pair_hits stages (pkey s s1) d
      = (if progressed (sorted_hist d) s s1 then count_list (adjacent_pairs stages) (s, s1) else 0)"
    by (simp add: pair_hits_def count_list_eq_length_filter)
  then show ?thesis
    using count_adjacent_pairs [of stages s s1] progressed_reaches [of d s s1] by auto
qed

lemma sum_pair_hits_le:
  assumes "inj_on (\<lambda>(a, b). pkey a b) (set (adjacent_pairs stages))"
    and "(s, s1) \<in> set (adjacent_pairs stages)"
  shows "sum_list (map (pair_hits stages (pkey s s1)) ds)
           \<le> count_list stages s * length (filter (reaches s) ds)"
proof (induction ds)
  case Nil
  then show ?case by simp
next
  case (Cons d ds)
  then show ?case
    using pair_hits_le [OF assms, of d] by (auto simp: algebra_simps)
qed

lemma progression_counts_rc_get0:
  "s \<noteq> ''__proto__'' \<Longrightarrow>
   get0 (reachedCounts (progression_counts stages ds)) s
     = count_list stages s * length (filter (reaches s) ds)"
  by (simp add: progression_counts_rc get0_def count_list_0_iff)

lemma progressed_le_reached:
  assumes "inj_on (\<lambda>(a, b). pkey a b) (set (adjacent_pairs stages))"
    and "(s, s1) \<in> set (adjacent_pairs stages)"
    and "s \<noteq> ''__proto__''"
  shows "get0 (progressedCounts (progression_counts stages ds)) (pkey s s1)
           \<le> get0 (reachedCounts (progression_counts stages ds)) s"
  using sum_pair_hits_le [OF assms(1,2), of ds] assms(3)
  by (simp add: progression_counts_pc progression_counts_rc_get0)

lemma wonAfter_le_reached:
  "get0 (ss_wonAfter (stats_counts w ds)) s \<le> get0 (ss_reached (stats_counts w ds)) s"
  by (simp add: stats_counts_wonAfter stats_counts_reached length_filter_conj_le)

lemma p_win_unit:
  assumes "completion (computeStats ds stages w ov) s = Some c"
  shows "0 \<le> p_win c \<and> p_win c \<le> 1"
proof -
  from assms have c: "c = completion_of (stats_counts w ds) (avgWon (computeStats ds stages w ov)) s"
    by (simp add: computeStats_completion split: if_splits)
  show ?thesis
    using fdiv_unit [OF wonAfter_le_reached [of w ds s]]
    by (simp add: c completion_of_fields)
qed

lemma p_advance_unit:
  assumes "inj_on (\<lambda>(a, b). pkey a b) (set (adjacent_pairs stages))"
    and "''__proto__'' \<notin> set stages"
    and "progression (computeStats ds stages w ov) k = Some e"
  shows "\<exists>p. p_advance e = Finite p \<and> 0 \<le> p \<and> p \<le> 1"
proof -
  let ?st = "progression_counts stages ds"
  have "(\<lambda>(s, s1) m. assign (pkey s s1) (advance_edge ?st s s1) m)
      = (\<lambda>x m. m((case x of (s, s1) \<Rightarrow> pkey s s1) \<mapsto>
                  (case x of (s, s1) \<Rightarrow> advance_edge ?st s s1)))"
    by (auto simp: fun_eq_iff)
  with assms(3) have "fold (\<lambda>x m. m((case x of (s, s1) \<Rightarrow> pkey s s1) \<mapsto>
                  (case x of (s, s1) \<Rightarrow> advance_edge ?st s s1)))
          (adjacent_pairs stages) Map.empty k = Some e"
    by (simp add: computeStats_def computeProgression_def Let_def)
  from fold_upd_key_Some [OF this]
  obtain s s1 where m: "(s, s1) \<in> set (adjacent_pairs stages)"
    and e: "e = advance_edge ?st s s1"
    by auto
  from m have "s \<in> set stages" by (rule adjacent_pairs_fst)
  with assms(2) have np: "s \<noteq> ''__proto__''" by auto
  with \<open>s \<in> set stages\<close> have "reachedCounts ?st s \<noteq> None"
    by (auto simp: progression_counts_rc)
  then have r: "read_or_0 (reachedCounts ?st) s = Counted (get0 (reachedCounts ?st) s)"
    by (auto simp: read_or_0_def get0_def)
  show ?thesis
    using fdiv_unit [OF progressed_le_reached [OF assms(1) m np, of ds]]
    by (simp add: e advance_edge_def Let_def r)
qed

text \<open>
  C4 fails on the code. The progression counts are stored under the string
  \<open>s @ ''->'' @ s1\<close>, and two different adjacent pairs can have the same string: the
  counts of both pairs are then added up under one key and divided by the reached count
  of one stage. With the stages \<open>a->b\<close>, \<open>c\<close>, \<open>a\<close>, \<open>b->c\<close> and one deal that passes
  through them in this order, the edge stored under \<open>a->b->c\<close> has 2 progressed deals
  out of 1 reached, the probability 2 and the stage loss -1. (\<open>p_win_unit\<close> shows that
  p_win always lies in the unit interval, and \<open>p_advance_unit\<close> that p_advance does when
  no two adjacent pairs share a key and no stage is named \<^verbatim>\<open>__proto__\<close>.)
\<close>

theorem p_advance_key_collision:
  "pkey ''a->b'' ''c'' = pkey ''a'' ''b->c''
   \<and> progression (computeStats [deal_collide] stages_collide None None) ''a->b->c''
       = Some \<lparr>from_reached = Counted 1, e_progressed = 2, p_advance = Finite 2\<rparr>
   \<and> stageLoss (computeStats [deal_collide] stages_collide None None) ''a->b''
       = Some (Finite (- 1))"
  by code_simp

end
